theory Spec2Isabelle
  imports Complex_Main "HOL-Library.Sublist" "HOL-Library.Log_Nat"
begin

section \<open>Statistics module: data model\<close>

text \<open>
  The statistics module (the \<^verbatim>\<open>stats\<close> route) holds one module-level object
  \<^verbatim>\<open>statsCache = { data, lastModified, isCalculating }\<close> and serves it through the
  asynchronous function \<^verbatim>\<open>getStats\<close>.

  \<^item> The change marker is \<^verbatim>\<open>stats.mtime.getTime()\<close>, a number of milliseconds: an \<open>int\<close>.
  \<^item> \<^verbatim>\<open>calculateStats\<close> reads two properties of every parsed record, \<^verbatim>\<open>category\<close>
    and \<^verbatim>\<open>price\<close>. A record is modelled with the types of the data model: the category
    is a string, the price a number, and either may be missing (\<open>None\<close>, which stands for
    \<^verbatim>\<open>undefined\<close> and \<^verbatim>\<open>null\<close>).
  \<^item> JavaScript numbers are IEEE doubles. A finite double is modelled by the rational
    number it stands for, and every arithmetic operation of \<^verbatim>\<open>calculateStats\<close> by the
    exact operation followed by the rounding \<open>fl\<close> to the nearest double (53 significant
    bits, a tie going to the even significand). Overflow, subnormal numbers, infinities
    and \<open>NaN\<close> are not modelled: the model is that of the code for values whose magnitude
    lies between \<open>2 ^ - 1022\<close> and \<open>2 ^ 1023\<close>, and for 0.
  \<^item> The object \<^verbatim>\<open>categories\<close> is a finite map from category names to counts. A category
    named like a property that every object inherits (\<^verbatim>\<open>constructor\<close>, \<^verbatim>\<open>toString\<close>,
    \<^verbatim>\<open>__proto__\<close>) is not modelled. No statement below depends on \<^verbatim>\<open>categories\<close>.
\<close>

type_synonym marker = int

record item =
  category :: "string option"
  price :: "rat option"

record priceRange_t =
  min_price :: rat
  max_price :: rat

record stats =
  total :: nat
  averagePrice :: rat
  categories :: "string \<rightharpoonup> nat"
  priceRange :: priceRange_t

record statsCache =
  data :: "stats option"
  lastModified :: "marker option"
  isCalculating :: bool

datatype error = Error string | TypeError | NotFound

subsection \<open>Doubles\<close>

text \<open>\<open>pow2 e\<close> is the power \<open>2 ^ e\<close> for an integer \<open>e\<close> of either sign.\<close>

definition pow2 :: "int \<Rightarrow> rat" where
  "pow2 e = (if 0 \<le> e then 2 ^ nat e else 1 / 2 ^ nat (- e))"

text \<open>
  The binary exponent of a number \<open>x\<close> other than 0: the integer \<open>e\<close> with
  \<open>2 ^ e \<le> \<bar>x\<bar> < 2 ^ (e + 1)\<close>. It is found from the numbers of bits of the numerator and
  of the denominator of \<open>\<bar>x\<bar>\<close>, which give it up to one.
\<close>

definition exponent :: "rat \<Rightarrow> int" where
  "exponent x =
     (let (p, q) = quotient_of \<bar>x\<bar>;
          d = bitlen p - bitlen q
      in if pow2 d \<le> \<bar>x\<bar> then d else d - 1)"

text \<open>Rounding to the nearest integer, a tie going to the even one.\<close>

definition round_even :: "rat \<Rightarrow> int" where
  "round_even y =
     (let f = \<lfloor>y\<rfloor>; r = y - of_int f
      in if r < 1 / 2 then f
         else if 1 / 2 < r then f + 1
         else if even f then f else f + 1)"

text \<open>
  The double nearest to \<open>x\<close>: a multiple of \<open>2 ^ (e - 52)\<close>, where \<open>e\<close> is the exponent of
  \<open>x\<close>, so that the significand has 53 bits.
\<close>

definition fl :: "rat \<Rightarrow> rat" where
  "fl x =
     (if x = 0 then 0
      else (let u = pow2 (exponent x - 52) in of_int (round_even (x / u)) * u))"

subsection \<open>calculateStats\<close>

text \<open>\<^verbatim>\<open>cur.price || 0\<close>: a missing price counts as 0 (and the price 0 is 0 anyway).\<close>

definition price_or_zero :: "item \<Rightarrow> rat" where
  "price_or_zero cur = (case price cur of None \<Rightarrow> 0 | Some p \<Rightarrow> p)"

text \<open>\<^verbatim>\<open>item.category || 'Unknown'\<close>: a missing category and the empty string are falsy.\<close>

definition category_or_unknown :: "item \<Rightarrow> string" where
  "category_or_unknown it =
     (case category it of None \<Rightarrow> ''Unknown'' | Some c \<Rightarrow> if c = [] then ''Unknown'' else c)"

text \<open>\<^verbatim>\<open>acc[category] = (acc[category] || 0) + 1\<close>\<close>

definition count_category :: "(string \<rightharpoonup> nat) \<Rightarrow> item \<Rightarrow> (string \<rightharpoonup> nat)" where
  "count_category acc it =
     (let c = category_or_unknown it
      in acc(c \<mapsto> (case acc c of None \<Rightarrow> 0 | Some n \<Rightarrow> n) + 1))"

text \<open>
  \<^verbatim>\<open>Math.round\<close> returns the integer nearest to its argument, a tie going towards plus
  infinity; it is exact on a double.
\<close>

definition Math_round :: "rat \<Rightarrow> int" where
  "Math_round x = \<lfloor>x + 1 / 2\<rfloor>"

text \<open>\<^verbatim>\<open>Math.min(...prices)\<close> and \<^verbatim>\<open>Math.max(...prices)\<close>, called on a non-empty list only.\<close>

fun Math_min :: "rat list \<Rightarrow> rat" where
  "Math_min [] = 0"
| "Math_min (p # ps) = fold min ps p"

fun Math_max :: "rat list \<Rightarrow> rat" where
  "Math_max [] = 0"
| "Math_max (p # ps) = fold max ps p"

text \<open>
  The prices of the records are doubles (what \<^verbatim>\<open>JSON.parse\<close> made of the numerals in the
  file). The sum, the quotient, the product by 100 and the final quotient by 100 are each
  rounded to a double.
\<close>

definition calculateStats :: "item list \<Rightarrow> stats" where
  "calculateStats items =
     (if length items = 0 then
        \<lparr>total = 0, averagePrice = 0, categories = Map.empty,
         priceRange = \<lparr>min_price = 0, max_price = 0\<rparr>\<rparr>
      else
        let total = length items;
            totalPrice = foldl (\<lambda>acc cur. fl (acc + price_or_zero cur)) 0 items;
            averagePrice = fl (totalPrice / of_nat total);
            categories = foldl count_category Map.empty items;
            prices = map price_or_zero items
        in \<lparr>total = total,
            averagePrice = fl (of_int (Math_round (fl (averagePrice * 100))) / 100),
            categories = categories,
            priceRange = \<lparr>min_price = Math_min prices, max_price = Math_max prices\<rparr>\<rparr>)"

section \<open>getStats as a transition system\<close>

text \<open>
  \<^verbatim>\<open>getStats\<close> is an \<^verbatim>\<open>async\<close> function on a single-threaded event loop: between two
  \<^verbatim>\<open>await\<close>s its code runs without interruption, and at an \<^verbatim>\<open>await\<close> other calls and the
  file watcher may run. Every call of \<^verbatim>\<open>getStats\<close> is therefore a small state machine
  whose states are the \<^verbatim>\<open>await\<close>s of the function:

  \<^item> \<open>AwaitStat k\<close>: suspended in \<^verbatim>\<open>await getFileModTime()\<close>;
  \<^item> \<open>AwaitTimer k\<close>: suspended in the 100 ms \<^verbatim>\<open>setTimeout\<close> of the branch taken when
    \<^verbatim>\<open>statsCache.isCalculating\<close> is set;
  \<^item> \<open>AwaitRead k m\<close>: suspended in \<^verbatim>\<open>await fs.readFile(...)\<close>, having observed the
    marker \<open>m\<close> (\<^verbatim>\<open>currentModTime\<close>);
  \<^item> \<open>Resolved s\<close>, \<open>Rejected e\<close>: the promise of the call has settled.

  The number \<open>k\<close> is the depth of the recursion \<^verbatim>\<open>return getStats()\<close>: how many times the
  call has waited and started over.
\<close>

datatype call =
    AwaitStat nat
  | AwaitTimer nat
  | AwaitRead nat marker
  | Resolved stats
  | Rejected error

text \<open>
  The state of the module: the cache object, the calls made so far (a call is named by its
  position in the list), and the number of times \<^verbatim>\<open>fs.readFile\<close> has been called on the
  data file.
\<close>

record system =
  cache :: statsCache
  calls :: "call list"
  reads :: nat

text \<open>
  What the environment does:
  \<^item> \<open>Invoke\<close>: a request calls \<^verbatim>\<open>getStats()\<close>, which runs up to its first \<^verbatim>\<open>await\<close>;
  \<^item> \<open>StatDone i r\<close>: \<^verbatim>\<open>fs.stat\<close> of call \<open>i\<close> settles, with the message of a failure
    (\<open>Inl\<close>) or with the modification time (\<open>Inr\<close>);
  \<^item> \<open>TimerDone i\<close>: the timer of call \<open>i\<close> fires;
  \<^item> \<open>ReadDone i r\<close>: the read of call \<open>i\<close> settles; \<open>Inl\<close> is the message of the error
    thrown by \<^verbatim>\<open>fs.readFile\<close>, \<^verbatim>\<open>JSON.parse\<close> or \<^verbatim>\<open>calculateStats\<close>, \<open>Inr\<close> the parsed records;
  \<^item> \<open>FileChanged\<close>: the callback of \<^verbatim>\<open>watchFile\<close> runs and empties the cache.
\<close>

datatype event =
    Invoke
  | StatDone nat "string + marker"
  | TimerDone nat
  | ReadDone nat "string + item list"
  | FileChanged

definition settled :: "call \<Rightarrow> bool" where
  "settled c = (case c of Resolved _ \<Rightarrow> True | Rejected _ \<Rightarrow> True | _ \<Rightarrow> False)"

definition set_call :: "nat \<Rightarrow> call \<Rightarrow> system \<Rightarrow> system" where
  "set_call i c s = s\<lparr>calls := (calls s)[i := c]\<rparr>"

text \<open>
  The code of \<^verbatim>\<open>getStats\<close> after \<^verbatim>\<open>await getFileModTime()\<close> has returned, up to the next
  \<^verbatim>\<open>await\<close> or \<^verbatim>\<open>return\<close>. A failure of \<^verbatim>\<open>getFileModTime\<close> is wrapped once by that function
  and once by the outer \<^verbatim>\<open>catch\<close> of \<^verbatim>\<open>getStats\<close>, which also resets \<^verbatim>\<open>isCalculating\<close>.
\<close>

definition after_stat :: "nat \<Rightarrow> nat \<Rightarrow> string + marker \<Rightarrow> system \<Rightarrow> system" where
  "after_stat i k r s =
     (case r of
        Inl msg \<Rightarrow>
          set_call i
            (Rejected (Error (''Failed to calculate stats: '' @ ''Failed to get file stats: '' @ msg)))
            (s\<lparr>cache := (cache s)\<lparr>isCalculating := False\<rparr>\<rparr>)
      | Inr currentModTime \<Rightarrow>
          (case data (cache s) of
             Some d \<Rightarrow>
               if lastModified (cache s) = Some currentModTime then set_call i (Resolved d) s
               else if isCalculating (cache s) then set_call i (AwaitTimer k) s
               else set_call i (AwaitRead k currentModTime)
                      (s\<lparr>cache := (cache s)\<lparr>isCalculating := True\<rparr>, reads := reads s + 1\<rparr>)
           | None \<Rightarrow>
               if isCalculating (cache s) then set_call i (AwaitTimer k) s
               else set_call i (AwaitRead k currentModTime)
                      (s\<lparr>cache := (cache s)\<lparr>isCalculating := True\<rparr>, reads := reads s + 1\<rparr>)))"

text \<open>
  The code of \<^verbatim>\<open>getStats\<close> after \<^verbatim>\<open>await fs.readFile(...)\<close>: the inner \<^verbatim>\<open>try\<close> block and
  its \<^verbatim>\<open>catch\<close>, whose error the outer \<^verbatim>\<open>catch\<close> wraps.
\<close>

definition after_read :: "nat \<Rightarrow> marker \<Rightarrow> string + item list \<Rightarrow> system \<Rightarrow> system" where
  "after_read i currentModTime r s =
     (case r of
        Inl msg \<Rightarrow>
          set_call i (Rejected (Error (''Failed to calculate stats: '' @ msg)))
            (s\<lparr>cache := (cache s)\<lparr>isCalculating := False\<rparr>\<rparr>)
      | Inr items \<Rightarrow>
          (let stats = calculateStats items
           in set_call i (Resolved stats)
                (s\<lparr>cache := \<lparr>data = Some stats, lastModified = Some currentModTime,
                               isCalculating = False\<rparr>\<rparr>)))"

text \<open>
  One step of the event loop. An event for a call that is not waiting for it (or for a
  call that does not exist) changes nothing.
\<close>

definition step :: "event \<Rightarrow> system \<Rightarrow> system" where
  "step e s =
     (case e of
        Invoke \<Rightarrow> s\<lparr>calls := calls s @ [AwaitStat 0]\<rparr>
      | StatDone i r \<Rightarrow>
          if i < length (calls s) then
            (case calls s ! i of AwaitStat k \<Rightarrow> after_stat i k r s | _ \<Rightarrow> s)
          else s
      | TimerDone i \<Rightarrow>
          if i < length (calls s) then
            (case calls s ! i of AwaitTimer k \<Rightarrow> set_call i (AwaitStat (Suc k)) s | _ \<Rightarrow> s)
          else s
      | ReadDone i r \<Rightarrow>
          if i < length (calls s) then
            (case calls s ! i of AwaitRead k m \<Rightarrow> after_read i m r s | _ \<Rightarrow> s)
          else s
      | FileChanged \<Rightarrow> s\<lparr>cache := (cache s)\<lparr>data := None, lastModified := None\<rparr>\<rparr>)"

definition run :: "event list \<Rightarrow> system \<Rightarrow> system" where
  "run evs s = fold step evs s"

text \<open>The module as loaded: an empty cache and no call.\<close>

definition initial :: system where
  "initial = \<lparr>cache = \<lparr>data = None, lastModified = None, isCalculating = False\<rparr>,
              calls = [], reads = 0\<rparr>"

section \<open>Items module: data model\<close>

text \<open>
  The items route reads the data file on every request and answers from the parsed array.
  Its handlers read three properties of a record: \<^verbatim>\<open>id\<close>, \<^verbatim>\<open>name\<close> and \<^verbatim>\<open>category\<close>.
  Nothing in the handlers checks their types, so here each is any JavaScript value a
  parsed JSON object can hold under that key (\<open>JUndefined\<close> when the key is missing,
  \<open>JObject\<close> for a nested array or object).

  The built-in functions of strings and numbers are modelled on a part of their domain, and
  every theorem about them is stated for that part:
  \<^item> strings are lists of characters and only strings of ASCII characters are meant, on
    which \<^verbatim>\<open>toLowerCase\<close> changes the letters A to Z and nothing else, and the white space
    that \<^verbatim>\<open>parseInt\<close> skips is tab, line feed, vertical tab, form feed, carriage return and
    space;
  \<^item> the numbers that \<^verbatim>\<open>parseInt\<close> returns and the page arithmetic are integers (\<open>int\<close>),
    \<open>NaN\<close> is \<open>None\<close>; this is what the code computes as long as the integers read from
    the parameters are at most \<open>2 ^ 53\<close> in magnitude, which a double holds exactly. (The
    code may then still round a product \<open>(page - 1) * pageSize\<close> above \<open>2 ^ 53\<close> and the
    quotient \<open>totalItems / pageSize\<close>; as the length of an array is below \<open>2 ^ 32\<close>, the
    rounded index lies on the same side of it as the exact one and the rounded quotient
    has the same ceiling, so that the answer is the same.)
  \<^item> a query parameter is a string or absent; a parameter given several times, which the
    query parser turns into an array, is not modelled.
\<close>

datatype jsval = JUndefined | JNull | JBool bool | JNum rat | JStr string | JObject

record jsitem =
  item_id :: jsval
  item_name :: jsval
  item_category :: jsval

record pagination_t =
  page :: "int option"
  pageSize :: int
  totalItems :: nat
  totalPages :: int
  hasNextPage :: bool
  hasPrevPage :: bool

record response =
  items :: "jsitem list"
  pagination :: pagination_t

subsection \<open>Built-in functions used by the handlers\<close>

text \<open>\<^verbatim>\<open>String.prototype.toLowerCase\<close>\<close>

definition lower_char :: "char \<Rightarrow> char" where
  "lower_char c =
     (let n = (of_char c :: nat) in if 65 \<le> n \<and> n \<le> 90 then char_of (n + 32) else c)"

definition toLowerCase :: "string \<Rightarrow> string" where
  "toLowerCase s = map lower_char s"

text \<open>\<^verbatim>\<open>String.prototype.includes\<close>: the argument occurs as a contiguous substring.\<close>

fun includes_str :: "string \<Rightarrow> string \<Rightarrow> bool" where
  "includes_str [] t = (t = [])"
| "includes_str (c # s) t = (prefix t (c # s) \<or> includes_str s t)"

text \<open>
  \<^verbatim>\<open>parseInt\<close> with no radix: leading white space is skipped, a sign is read, a prefix
  \<^verbatim>\<open>0x\<close> selects radix 16, and the longest run of digits that follows is the value; what
  comes after it is ignored. With no digit the result is \<open>NaN\<close>.
\<close>

definition is_space :: "char \<Rightarrow> bool" where
  "is_space c = ((of_char c :: nat) \<in> {9, 10, 11, 12, 13, 32})"

definition digit_value :: "char \<Rightarrow> nat option" where
  "digit_value c =
     (let n = (of_char c :: nat)
      in if 48 \<le> n \<and> n \<le> 57 then Some (n - 48)
         else if 97 \<le> n \<and> n \<le> 122 then Some (n - 87)
         else if 65 \<le> n \<and> n \<le> 90 then Some (n - 55)
         else None)"

definition is_digit :: "nat \<Rightarrow> char \<Rightarrow> bool" where
  "is_digit radix c = (case digit_value c of None \<Rightarrow> False | Some d \<Rightarrow> d < radix)"

definition digits_value :: "nat \<Rightarrow> string \<Rightarrow> nat" where
  "digits_value radix z =
     foldl (\<lambda>acc c. acc * radix + (case digit_value c of None \<Rightarrow> 0 | Some d \<Rightarrow> d)) 0 z"

definition parseInt :: "string \<Rightarrow> int option" where
  "parseInt inputString =
     (let s1 = dropWhile is_space inputString;
          negative = (take 1 s1 = ''-'');
          s2 = (if take 1 s1 = ''-'' \<or> take 1 s1 = ''+'' then drop 1 s1 else s1);
          hex = (take 2 s2 = ''0x'' \<or> take 2 s2 = ''0X'');
          radix = (if hex then 16 else 10);
          s3 = (if hex then drop 2 s2 else s2);
          z = takeWhile (is_digit radix) s3
      in if z = [] then None
         else Some ((if negative then - 1 else 1) * int (digits_value radix z)))"

text \<open>
  \<^verbatim>\<open>Array.prototype.slice(start, end)\<close>: each index is first made an integer (\<open>NaN\<close>
  becomes 0); a negative index counts from the end of the array; both are clamped to the
  array.
\<close>

definition slice_index :: "nat \<Rightarrow> int option \<Rightarrow> nat" where
  "slice_index len v =
     (case v of
        None \<Rightarrow> 0
      | Some k \<Rightarrow> if k < 0 then nat (max (int len + k) 0) else min (nat k) len)"

definition slice :: "'a list \<Rightarrow> int option \<Rightarrow> int option \<Rightarrow> 'a list" where
  "slice xs start fin =
     (let k = slice_index (length xs) start;
          final = slice_index (length xs) fin
      in take (final - k) (drop k xs))"

text \<open>\<^verbatim>\<open>===\<close> between a property and a result of \<^verbatim>\<open>parseInt\<close>; \<open>NaN\<close> equals nothing.\<close>

definition strict_equal :: "jsval \<Rightarrow> int option \<Rightarrow> bool" where
  "strict_equal v n =
     (case n of
        None \<Rightarrow> False
      | Some k \<Rightarrow> (case v of JNum r \<Rightarrow> r = of_int k | _ \<Rightarrow> False))"

subsection \<open>readData\<close>

text \<open>
  The argument is what \<^verbatim>\<open>fs.readFile\<close> followed by \<^verbatim>\<open>JSON.parse\<close> produces: the message
  of the error thrown, or the parsed array.
\<close>

definition readData :: "string + jsitem list \<Rightarrow> error + jsitem list" where
  "readData r =
     (case r of
        Inl msg \<Rightarrow> Inl (Error (''Failed to read data file: '' @ msg))
      | Inr parsed \<Rightarrow> Inr parsed)"

subsection \<open>GET /api/items\<close>

text \<open>
  \<^verbatim>\<open>v.toLowerCase()\<close> on a property: a \<^verbatim>\<open>TypeError\<close> unless the value is a string.
\<close>

definition lowered :: "jsval \<Rightarrow> error + string" where
  "lowered v = (case v of JStr s \<Rightarrow> Inr (toLowerCase s) | _ \<Rightarrow> Inl TypeError)"

text \<open>
  The callback of the filter. The operator \<^verbatim>\<open>||\<close> evaluates its right operand only when
  the left one is false.
\<close>

definition matches :: "string \<Rightarrow> jsitem \<Rightarrow> error + bool" where
  "matches searchTerm it =
     (case lowered (item_name it) of
        Inl e \<Rightarrow> Inl e
      | Inr n \<Rightarrow>
          if includes_str n searchTerm then Inr True
          else (case lowered (item_category it) of
                  Inl e \<Rightarrow> Inl e
                | Inr c \<Rightarrow> Inr (includes_str c searchTerm)))"

text \<open>\<^verbatim>\<open>Array.prototype.filter\<close> with a callback that may throw.\<close>

fun filter_js :: "('a \<Rightarrow> error + bool) \<Rightarrow> 'a list \<Rightarrow> error + 'a list" where
  "filter_js f [] = Inr []"
| "filter_js f (x # xs) =
     (case f x of
        Inl e \<Rightarrow> Inl e
      | Inr keep \<Rightarrow>
          (case filter_js f xs of
             Inl e \<Rightarrow> Inl e
           | Inr ys \<Rightarrow> Inr (if keep then x # ys else ys)))"

text \<open>The search block: \<^verbatim>\<open>if (q) { ... }\<close>; a missing and an empty \<^verbatim>\<open>q\<close> are falsy.\<close>

definition search :: "string option \<Rightarrow> jsitem list \<Rightarrow> error + jsitem list" where
  "search q results =
     (case q of
        None \<Rightarrow> Inr results
      | Some s \<Rightarrow> if s = [] then Inr results else filter_js (matches (toLowerCase s)) results)"

text \<open>\<^verbatim>\<open>parseInt\<close> of a query parameter; a missing parameter is \<^verbatim>\<open>undefined\<close>, hence \<open>NaN\<close>.\<close>

definition parseInt_param :: "string option \<Rightarrow> int option" where
  "parseInt_param p = (case p of None \<Rightarrow> None | Some s \<Rightarrow> parseInt s)"

text \<open>
  The handler. Its arguments are the query parameters \<^verbatim>\<open>limit\<close>, \<^verbatim>\<open>q\<close> and \<^verbatim>\<open>page\<close>
  (\<open>None\<close> when absent) and the outcome of reading the data file. The default \<^verbatim>\<open>page = 1\<close>
  of the destructuring applies to an absent parameter only.
\<close>

definition listItems ::
  "string option \<Rightarrow> string option \<Rightarrow> string option \<Rightarrow> string + jsitem list \<Rightarrow> error + response"
where
  "listItems limit q page_param r =
     (case readData r of
        Inl e \<Rightarrow> Inl e
      | Inr dat \<Rightarrow>
          (case search q dat of
             Inl e \<Rightarrow> Inl e
           | Inr results \<Rightarrow>
               (let pageSize = (case parseInt_param limit of
                                  None \<Rightarrow> 10
                                | Some n \<Rightarrow> if n = 0 then 10 else n);
                    pageNumber = (case page_param of None \<Rightarrow> Some 1 | Some p \<Rightarrow> parseInt p);
                    totalItems = length results;
                    totalPages = \<lceil>(of_nat totalItems :: rat) / of_int pageSize\<rceil>;
                    startIndex = map_option (\<lambda>n. (n - 1) * pageSize) pageNumber;
                    endIndex = map_option (\<lambda>i. i + pageSize) startIndex
                in Inr \<lparr>items = slice results startIndex endIndex,
                        pagination =
                          \<lparr>page = pageNumber,
                           pageSize = pageSize,
                           totalItems = totalItems,
                           totalPages = totalPages,
                           hasNextPage = (case pageNumber of None \<Rightarrow> False | Some n \<Rightarrow> n < totalPages),
                           hasPrevPage = (case pageNumber of None \<Rightarrow> False | Some n \<Rightarrow> n > 1)\<rparr>\<rparr>)))"

subsection \<open>GET /api/items/:id\<close>

text \<open>
  \<^verbatim>\<open>data.find(i => i.id === parseInt(req.params.id))\<close>, then the 404 error when nothing
  was found. A route parameter is always a string.
\<close>

definition getItem :: "string \<Rightarrow> string + jsitem list \<Rightarrow> error + jsitem" where
  "getItem id_param r =
     (case readData r of
        Inl e \<Rightarrow> Inl e
      | Inr dat \<Rightarrow>
          (case find (\<lambda>i. strict_equal (item_id i) (parseInt id_param)) dat of
             None \<Rightarrow> Inl NotFound
           | Some it \<Rightarrow> Inr it))"

section \<open>Notions used to state the properties\<close>

text \<open>How often a call that has not settled has waited and started over.\<close>

definition retries :: "call \<Rightarrow> nat" where
  "retries c =
     (case c of AwaitStat k \<Rightarrow> k | AwaitTimer k \<Rightarrow> k | AwaitRead k m \<Rightarrow> k | _ \<Rightarrow> 0)"

text \<open>
  \<open>n\<close> rounds of one waiting call \<open>i\<close>: its \<^verbatim>\<open>fs.stat\<close> returns the marker \<open>m\<close>, then its
  timer fires.
\<close>

definition wait_rounds :: "nat \<Rightarrow> nat \<Rightarrow> marker \<Rightarrow> event list" where
  "wait_rounds n i m = concat (replicate n [StatDone i (Inr m), TimerDone i])"

text \<open>
  The specification's reading of two characters that are equal when case is ignored: the
  same character, or the capital and the small form of one letter of the alphabet. The
  capital letters have the codes 65 to 90, and the small form of a letter is 32 above its
  capital form.
\<close>

definition capital_letter :: "char \<Rightarrow> bool" where
  "capital_letter c = ((of_char c :: nat) \<in> {65..90})"

definition eq_ignoring_case :: "char \<Rightarrow> char \<Rightarrow> bool" where
  "eq_ignoring_case c d =
     (c = d
      \<or> (capital_letter c \<and> (of_char d :: nat) = of_char c + 32)
      \<or> (capital_letter d \<and> (of_char c :: nat) = of_char d + 32))"

text \<open>
  The specification's reading of a search: the term occurs in the string as a substring
  when the case of letters is ignored, that is, at some position the string agrees with the
  term character by character up to case.
\<close>

definition ci_substring :: "string \<Rightarrow> string \<Rightarrow> bool" where
  "ci_substring t s =
     (\<exists>i \<in> {0..length s}. i + length t \<le> length s
        \<and> (\<forall>j < length t. eq_ignoring_case (s ! (i + j)) (t ! j)))"

text \<open>
  The specification's reading of a page: the elements whose index lies in the interval
  from \<open>a\<close> (included) to \<open>b\<close> (excluded), the interval being clipped to the list.
\<close>

definition clipped_slice :: "'a list \<Rightarrow> int \<Rightarrow> int \<Rightarrow> 'a list" where
  "clipped_slice xs a b = map (nth xs) (filter (\<lambda>i. a \<le> int i \<and> int i < b) [0..<length xs])"

text \<open>
  The specification's reading of rounding to 2 decimal places, half up: the multiple of a
  hundredth nearest to \<open>x\<close>, the upper one when \<open>x\<close> lies half-way between two. This is
  exact arithmetic.
\<close>

definition round_half_up_2dp :: "rat \<Rightarrow> rat" where
  "round_half_up_2dp x = of_int \<lfloor>x * 100 + 1 / 2\<rfloor> / 100"

text \<open>
  The specification's reading of an identifier that denotes exactly the number \<open>n\<close>: the
  whole string is a decimal numeral whose value is \<open>n\<close>.
\<close>

definition denotes_exactly :: "string \<Rightarrow> int \<Rightarrow> bool" where
  "denotes_exactly s n = (s \<noteq> [] \<and> list_all (is_digit 10) s \<and> int (digits_value 10 s) = n)"

text \<open>A property holds a string; the string it holds.\<close>

definition is_string :: "jsval \<Rightarrow> bool" where
  "is_string v = (case v of JStr s \<Rightarrow> True | _ \<Rightarrow> False)"

definition str_of :: "jsval \<Rightarrow> string" where
  "str_of v = (case v of JStr s \<Rightarrow> s | _ \<Rightarrow> [])"

text \<open>
  The specification's reading of a record that a search for the term \<open>t\<close> keeps: its
  name or its category contains \<open>t\<close> when case is ignored.
\<close>

definition kept :: "string \<Rightarrow> jsitem \<Rightarrow> bool" where
  "kept t r = (ci_substring t (str_of (item_name r)) \<or> ci_substring t (str_of (item_category r)))"

text \<open>
  The records of the test suite of the items route (\<^verbatim>\<open>mockItems\<close> in
  \<^verbatim>\<open>items.test.js\<close>), with the three properties that the handlers read.
\<close>

definition mockItems :: "jsitem list" where
  "mockItems =
     [\<lparr>item_id = JNum 1, item_name = JStr ''Test Laptop'', item_category = JStr ''Electronics''\<rparr>,
      \<lparr>item_id = JNum 2, item_name = JStr ''Test Headphones'', item_category = JStr ''Electronics''\<rparr>,
      \<lparr>item_id = JNum 3, item_name = JStr ''Test Chair'', item_category = JStr ''Furniture''\<rparr>]"

text \<open>
  The strings and numbers on which the built-in functions above are those of JavaScript: a
  string of ASCII characters, and a result of \<^verbatim>\<open>parseInt\<close> that is \<open>NaN\<close> or an integer of
  magnitude at most \<open>2 ^ 53\<close>, which a double holds exactly.
\<close>

definition ascii :: "string \<Rightarrow> bool" where
  "ascii s = list_all (\<lambda>c. (of_char c :: nat) < 128) s"

definition ascii_param :: "string option \<Rightarrow> bool" where
  "ascii_param p = (case p of None \<Rightarrow> True | Some s \<Rightarrow> ascii s)"

definition ascii_value :: "jsval \<Rightarrow> bool" where
  "ascii_value v = (case v of JStr s \<Rightarrow> ascii s | _ \<Rightarrow> True)"

definition ascii_items :: "jsitem list \<Rightarrow> bool" where
  "ascii_items dat = list_all (\<lambda>r. ascii_value (item_name r) \<and> ascii_value (item_category r)) dat"

definition safe_integer :: "int option \<Rightarrow> bool" where
  "safe_integer v = (case v of None \<Rightarrow> True | Some n \<Rightarrow> \<bar>n\<bar> \<le> 2 ^ 53)"

text \<open>
  An event that leaves the cached statistics and their marker alone: any event but a
  callback of the watcher and the completion of a computation.
\<close>

definition keeps_entry :: "event \<Rightarrow> bool" where
  "keeps_entry e =
     (case e of
        FileChanged \<Rightarrow> False
      | ReadDone i r \<Rightarrow> (case r of Inl msg \<Rightarrow> True | Inr its \<Rightarrow> False)
      | _ \<Rightarrow> True)"

text \<open>
  An event of a run in which nothing goes wrong and the data file keeps the marker \<open>m\<close>:
  every \<^verbatim>\<open>fs.stat\<close> returns \<open>m\<close>, every read succeeds and the watcher stays silent.
\<close>

definition undisturbed :: "marker \<Rightarrow> event \<Rightarrow> bool" where
  "undisturbed m e =
     (case e of
        StatDone i r \<Rightarrow> r = Inr m
      | ReadDone i r \<Rightarrow> (case r of Inl msg \<Rightarrow> False | Inr its \<Rightarrow> True)
      | FileChanged \<Rightarrow> False
      | _ \<Rightarrow> True)"

text \<open>
  The states of such runs: before the first read the cache is empty and every call is still
  waiting for \<^verbatim>\<open>fs.stat\<close>; after it, the one computation is in flight or its result is
  cached under \<open>m\<close>.
\<close>

definition one_pass :: "marker \<Rightarrow> system \<Rightarrow> bool" where
  "one_pass m s =
     ((\<forall>c \<in> set (calls s). \<forall>k m'. c = AwaitRead k m' \<longrightarrow> m' = m)
      \<and> ((reads s = 0 \<and> \<not> isCalculating (cache s) \<and> data (cache s) = None
            \<and> (\<forall>c \<in> set (calls s). \<exists>k. c = AwaitStat k))
         \<or> (reads s = 1
            \<and> (isCalculating (cache s)
                \<or> (data (cache s) \<noteq> None \<and> lastModified (cache s) = Some m)))))"

section \<open>The statistics cache\<close>

lemmas step_defs = step_def after_stat_def after_read_def set_call_def Let_def

lemmas getStats_defs = run_def step_defs

lemma run_Nil: "run [] s = s"
  by (simp add: run_def)

lemma run_append: "run (xs @ ys) s = run ys (run xs s)"
  by (simp add: run_def)

lemma run_snoc: "run (xs @ [e]) s = step e (run xs s)"
  by (simp add: run_def)

lemma step_Invoke: "step Invoke s = s\<lparr>calls := calls s @ [AwaitStat 0]\<rparr>"
  by (simp add: step_def)

lemma step_StatDone_hit:
  assumes "i < length (calls s)" and "calls s ! i = AwaitStat k"
    and "data (cache s) = Some d" and "lastModified (cache s) = Some m"
  shows "step (StatDone i (Inr m)) s = s\<lparr>calls := (calls s)[i := Resolved d]\<rparr>"
  using assms by (simp add: step_def after_stat_def set_call_def)

lemma keeps_entry_step:
  assumes "keeps_entry e"
  shows "data (cache (step e s)) = data (cache s)
       \<and> lastModified (cache (step e s)) = lastModified (cache s)"
  using assms
  by (cases e)
     (auto simp add: keeps_entry_def step_defs split: call.splits sum.splits option.splits)

lemma keeps_entry_run:
  assumes "list_all keeps_entry evs"
  shows "data (cache (run evs s)) = data (cache s)
       \<and> lastModified (cache (run evs s)) = lastModified (cache s)"
  using assms
proof (induction evs rule: rev_induct)
  case Nil
  show ?case by (simp add: run_Nil)
next
  case (snoc e evs)
  then show ?case
    using keeps_entry_step [of e "run evs s"] by (simp add: run_snoc)
qed

lemma resolving_step:
  assumes "i < length (calls s)" and "\<not> settled (calls s ! i)"
    and "calls (step e s) ! i = Resolved d"
    and "e = StatDone i (Inr m) \<or> (\<exists>k r. e = ReadDone i r \<and> calls s ! i = AwaitRead k m)"
  shows "data (cache (step e s)) = Some d \<and> lastModified (cache (step e s)) = Some m"
  using assms
  by (auto simp add: step_defs settled_def split: call.splits sum.splits option.splits if_splits)

text \<open>
  C1 (as amended). When the cache holds statistics and the marker stored with them is the
  one \<^verbatim>\<open>fs.stat\<close> reports, a call of \<^verbatim>\<open>getStats\<close> resolves with the cached statistics: the
  cache and the number of reads of the data file stay as they were. Consequently, when a
  call has resolved with some statistics, having observed the marker \<open>m'\<close>, and the events
  that follow are neither a callback of the watcher nor the completion of another
  computation, a later call to which \<^verbatim>\<open>fs.stat\<close> reports the same marker resolves with the
  same statistics and reads nothing.
\<close>

theorem getStats_cache_hit:
  "(i < length (calls s) \<and> calls s ! i = AwaitStat k
      \<and> data (cache s) = Some d \<and> lastModified (cache s) = Some m
    \<longrightarrow> step (StatDone i (Inr m)) s = s\<lparr>calls := (calls s)[i := Resolved d]\<rparr>)
   \<and> (i' < length (calls t) \<and> \<not> settled (calls t ! i')
        \<and> calls (step e t) ! i' = Resolved d'
        \<and> (e = StatDone i' (Inr m') \<or> (\<exists>k r. e = ReadDone i' r \<and> calls t ! i' = AwaitRead k m'))
        \<and> list_all keeps_entry evs
        \<and> j < length (calls (run evs (step e t)))
        \<and> calls (run evs (step e t)) ! j = AwaitStat k'
      \<longrightarrow> step (StatDone j (Inr m')) (run evs (step e t))
            = (run evs (step e t))\<lparr>calls := (calls (run evs (step e t)))[j := Resolved d']\<rparr>)"
proof (intro conjI impI)
  assume "i < length (calls s) \<and> calls s ! i = AwaitStat k
      \<and> data (cache s) = Some d \<and> lastModified (cache s) = Some m"
  then show "step (StatDone i (Inr m)) s = s\<lparr>calls := (calls s)[i := Resolved d]\<rparr>"
    by (simp add: step_StatDone_hit)
next
  assume a: "i' < length (calls t) \<and> \<not> settled (calls t ! i')
        \<and> calls (step e t) ! i' = Resolved d'
        \<and> (e = StatDone i' (Inr m') \<or> (\<exists>k r. e = ReadDone i' r \<and> calls t ! i' = AwaitRead k m'))
        \<and> list_all keeps_entry evs
        \<and> j < length (calls (run evs (step e t)))
        \<and> calls (run evs (step e t)) ! j = AwaitStat k'"
  then have a1: "i' < length (calls t)" and a2: "\<not> settled (calls t ! i')"
    and a3: "calls (step e t) ! i' = Resolved d'"
    and a4: "e = StatDone i' (Inr m') \<or> (\<exists>k r. e = ReadDone i' r \<and> calls t ! i' = AwaitRead k m')"
    and a5: "list_all keeps_entry evs"
    and a6: "j < length (calls (run evs (step e t)))"
    and a7: "calls (run evs (step e t)) ! j = AwaitStat k'"
    by blast+
  have "data (cache (step e t)) = Some d' \<and> lastModified (cache (step e t)) = Some m'"
    using a1 a2 a3 a4 by (rule resolving_step)
  moreover have "data (cache (run evs (step e t))) = data (cache (step e t))
       \<and> lastModified (cache (run evs (step e t))) = lastModified (cache (step e t))"
    using a5 by (rule keeps_entry_run)
  ultimately have "data (cache (run evs (step e t))) = Some d'"
    and "lastModified (cache (run evs (step e t))) = Some m'"
    by simp_all
  with a6 a7 show "step (StatDone j (Inr m')) (run evs (step e t))
            = (run evs (step e t))\<lparr>calls := (calls (run evs (step e t)))[j := Resolved d']\<rparr>"
    by (rule step_StatDone_hit)
qed

theorem getStats_cache_hit_witness:
  "(0 < length (calls \<lparr>cache = \<lparr>data = Some (calculateStats []), lastModified = Some 5,
                                 isCalculating = False\<rparr>,
                       calls = [AwaitStat 0], reads = 1\<rparr>)
    \<and> calls \<lparr>cache = \<lparr>data = Some (calculateStats []), lastModified = Some 5,
                        isCalculating = False\<rparr>,
              calls = [AwaitStat 0], reads = 1\<rparr> ! 0 = AwaitStat 0
    \<and> step (StatDone 0 (Inr 5))
         \<lparr>cache = \<lparr>data = Some (calculateStats []), lastModified = Some 5,
                    isCalculating = False\<rparr>,
          calls = [AwaitStat 0], reads = 1\<rparr>
       = \<lparr>cache = \<lparr>data = Some (calculateStats []), lastModified = Some 5,
                    isCalculating = False\<rparr>,
          calls = [Resolved (calculateStats [])], reads = 1\<rparr>)
   \<and> (let t = run [Invoke, StatDone 0 (Inr 5)] initial;
           s1 = step (ReadDone 0 (Inr [])) t;
           s2 = run [Invoke, Invoke, StatDone 2 (Inr 9)] s1
       in 0 < length (calls t) \<and> \<not> settled (calls t ! 0)
          \<and> calls t ! 0 = AwaitRead 0 5
          \<and> calls s1 ! 0 = Resolved (calculateStats [])
          \<and> list_all keeps_entry [Invoke, Invoke, StatDone 2 (Inr 9)]
          \<and> 1 < length (calls s2) \<and> calls s2 ! 1 = AwaitStat 0
          \<and> calls (step (StatDone 1 (Inr 5)) s2) ! 1 = Resolved (calculateStats [])
          \<and> reads (step (StatDone 1 (Inr 5)) s2) = reads s2
          \<and> cache (step (StatDone 1 (Inr 5)) s2) = cache s2)"
proof -
  let ?s = "\<lparr>cache = \<lparr>data = Some (calculateStats []), lastModified = Some 5,
                      isCalculating = False\<rparr>,
             calls = [AwaitStat 0], reads = 1\<rparr>"
  let ?t = "run [Invoke, StatDone 0 (Inr 5)] initial"
  let ?s1 = "step (ReadDone 0 (Inr [])) ?t"
  let ?evs = "[Invoke, Invoke, StatDone 2 (Inr 9)]"
  let ?s2 = "run ?evs ?s1"
  have h1: "0 < length (calls ?s) \<and> calls ?s ! 0 = AwaitStat 0
      \<and> data (cache ?s) = Some (calculateStats []) \<and> lastModified (cache ?s) = Some 5"
    by simp
  have t: "?t = \<lparr>cache = \<lparr>data = None, lastModified = None, isCalculating = True\<rparr>,
                 calls = [AwaitRead 0 5], reads = 1\<rparr>"
    by (simp add: getStats_defs initial_def)
  have s1: "?s1 = \<lparr>cache = \<lparr>data = Some (calculateStats []), lastModified = Some 5,
                             isCalculating = False\<rparr>,
                   calls = [Resolved (calculateStats [])], reads = 1\<rparr>"
    unfolding t by (simp add: step_defs)
  have s2: "?s2 = \<lparr>cache = \<lparr>data = Some (calculateStats []), lastModified = Some 5,
                             isCalculating = True\<rparr>,
                   calls = [Resolved (calculateStats []), AwaitStat 0, AwaitRead 0 9], reads = 2\<rparr>"
    unfolding s1 by (simp add: getStats_defs)
  have k: "list_all keeps_entry ?evs"
    by (simp add: keeps_entry_def)
  have h2: "0 < length (calls ?t) \<and> \<not> settled (calls ?t ! 0)
        \<and> calls (step (ReadDone 0 (Inr [])) ?t) ! 0 = Resolved (calculateStats [])
        \<and> (ReadDone 0 (Inr []) = StatDone 0 (Inr 5)
            \<or> (\<exists>k r. ReadDone 0 (Inr []) = ReadDone 0 r \<and> calls ?t ! 0 = AwaitRead k 5))
        \<and> list_all keeps_entry ?evs
        \<and> 1 < length (calls ?s2)
        \<and> calls ?s2 ! 1 = AwaitStat 0"
    using k unfolding s2 unfolding s1 unfolding t by (simp add: settled_def)
  from getStats_cache_hit [of 0 ?s 0 "calculateStats []" 5 0 ?t "ReadDone 0 (Inr [])"
      "calculateStats []" 5 ?evs 1 0] h1 h2
  have c: "step (StatDone 0 (Inr 5)) ?s = ?s\<lparr>calls := (calls ?s)[0 := Resolved (calculateStats [])]\<rparr>"
    and d: "step (StatDone 1 (Inr 5)) ?s2 = ?s2\<lparr>calls := (calls ?s2)[1 := Resolved (calculateStats [])]\<rparr>"
    by blast+
  show ?thesis
    unfolding Let_def using c d h2 k unfolding s2 unfolding s1 unfolding t
    by (simp add: settled_def)
qed

text \<open>
  The claim C1 as stated fails in its second part: when the watcher callback runs between
  two calls (for a change of the file made before the first call, which the watcher polls
  once a second), the cache is emptied and the second call reads the file again, although
  the data and the marker have not changed between the calls.
\<close>

theorem reread_after_watcher_callback:
  "(let s = run [Invoke, StatDone 0 (Inr 5), ReadDone 0 (Inr []),
                 FileChanged, Invoke, StatDone 1 (Inr 5)] initial
    in calls s ! 0 = Resolved (calculateStats []) \<and> calls s ! 1 = AwaitRead 0 5 \<and> reads s = 2)"
  by (simp add: getStats_defs initial_def)

subsection \<open>Waiting for a computation in flight\<close>

text \<open>One round of waiting changes nothing but the depth of the recursion.\<close>

lemma wait_round:
  assumes "i < length (calls s)" and "calls s ! i = AwaitStat k" and "isCalculating (cache s)"
    and "data (cache s) = None \<or> lastModified (cache s) \<noteq> Some m"
  shows "run [StatDone i (Inr m), TimerDone i] s = s\<lparr>calls := (calls s)[i := AwaitStat (Suc k)]\<rparr>"
  using assms
  by (auto simp add: getStats_defs split: option.splits)

lemma wait_rounds_Suc: "wait_rounds (Suc n) i m = [StatDone i (Inr m), TimerDone i] @ wait_rounds n i m"
  by (simp add: wait_rounds_def)

lemma run_wait_rounds:
  assumes "i < length (calls s)" and "calls s ! i = AwaitStat k" and "isCalculating (cache s)"
    and "data (cache s) = None \<or> lastModified (cache s) \<noteq> Some m"
  shows "run (wait_rounds n i m) s = s\<lparr>calls := (calls s)[i := AwaitStat (k + n)]\<rparr>"
  using assms
proof (induction n arbitrary: s k)
  case 0
  have "(calls s)[i := AwaitStat k] = calls s"
    using "0.prems"(2) by (metis list_update_id)
  then show ?case
    by (simp add: wait_rounds_def run_Nil)
next
  case (Suc n)
  let ?s' = "s\<lparr>calls := (calls s)[i := AwaitStat (Suc k)]\<rparr>"
  have one: "run [StatDone i (Inr m), TimerDone i] s = ?s'"
    using Suc.prems by (rule wait_round)
  have "run (wait_rounds n i m) ?s' = ?s'\<lparr>calls := (calls ?s')[i := AwaitStat (Suc k + n)]\<rparr>"
    using Suc.prems by (intro Suc.IH) simp_all
  moreover have "run (wait_rounds (Suc n) i m) s
      = run (wait_rounds n i m) (run [StatDone i (Inr m), TimerDone i] s)"
    by (simp only: wait_rounds_Suc run_append)
  ultimately show ?case
    by (simp add: one)
qed

lemma own_computation_needs_clear_flag:
  assumes "i < length (calls s)" and "calls s ! i = AwaitStat k"
    and "calls (step e s) ! i = AwaitRead k' m'"
  shows "\<not> isCalculating (cache s)"
  using assms
  by (auto simp add: step_def after_stat_def after_read_def set_call_def Let_def nth_append nth_list_update
      split: event.splits call.splits sum.splits option.splits if_splits)

text \<open>
  C2 (as amended). The retry of \<^verbatim>\<open>getStats\<close> has no cap. A call that finds the flag
  \<^verbatim>\<open>isCalculating\<close> set and no cached statistics for the current marker waits 100 ms and
  calls \<^verbatim>\<open>getStats\<close> again; as long as both conditions last, any number \<open>n\<close> of such rounds
  leaves the state as it was except for the depth of the recursion, which grows by \<open>n\<close>,
  and no read is made. The call starts a computation of its own only from a state where
  the flag is not set.
\<close>

theorem wait_and_retry_unbounded:
  assumes "i < length (calls s)" and "calls s ! i = AwaitStat k"
  shows "(isCalculating (cache s) \<and> (data (cache s) = None \<or> lastModified (cache s) \<noteq> Some m)
           \<longrightarrow> run (wait_rounds n i m) s = s\<lparr>calls := (calls s)[i := AwaitStat (k + n)]\<rparr>)
       \<and> (calls (step e s) ! i = AwaitRead k' m' \<longrightarrow> \<not> isCalculating (cache s))"
  using assms run_wait_rounds own_computation_needs_clear_flag by blast

theorem wait_and_retry_unbounded_witness:
  "(let s = \<lparr>cache = \<lparr>data = None, lastModified = None, isCalculating = True\<rparr>,
             calls = [AwaitRead 0 1, AwaitStat 0], reads = 1\<rparr>
    in 1 < length (calls s) \<and> calls s ! 1 = AwaitStat 0 \<and> isCalculating (cache s)
       \<and> data (cache s) = None
       \<and> run (wait_rounds 3 1 1) s = s\<lparr>calls := [AwaitRead 0 1, AwaitStat 3]\<rparr>)
   \<and> (let t = \<lparr>cache = \<lparr>data = None, lastModified = None, isCalculating = False\<rparr>,
             calls = [AwaitStat 2], reads = 0\<rparr>
      in 0 < length (calls t) \<and> calls t ! 0 = AwaitStat 2
         \<and> calls (step (StatDone 0 (Inr 1)) t) ! 0 = AwaitRead 2 1 \<and> \<not> isCalculating (cache t))"
proof -
  let ?s = "\<lparr>cache = \<lparr>data = None, lastModified = None, isCalculating = True\<rparr>,
             calls = [AwaitRead 0 1, AwaitStat 0], reads = 1\<rparr>"
  let ?t = "\<lparr>cache = \<lparr>data = None, lastModified = None, isCalculating = False\<rparr>,
             calls = [AwaitStat 2], reads = 0\<rparr>"
  have hs: "1 < length (calls ?s)" "calls ?s ! 1 = AwaitStat 0"
    by simp_all
  have ht: "0 < length (calls ?t)" "calls ?t ! 0 = AwaitStat 2"
    by simp_all
  have st: "calls (step (StatDone 0 (Inr 1)) ?t) ! 0 = AwaitRead 2 1"
    by (simp add: getStats_defs)
  from wait_and_retry_unbounded [OF hs, of 1 3]
       wait_and_retry_unbounded [OF ht, of _ _ "StatDone 0 (Inr 1)" 2 1] st hs ht
  show ?thesis
    by (simp add: Let_def)
qed

text \<open>
  The claim C2 as stated fails: with one call computing and a second one waiting, the
  number of retries of the second exceeds every bound.
\<close>

lemma storm_state:
  "run ([Invoke, StatDone 0 (Inr 1), Invoke] @ wait_rounds n 1 1) initial
   = \<lparr>cache = \<lparr>data = None, lastModified = None, isCalculating = True\<rparr>,
      calls = [AwaitRead 0 1, AwaitStat n], reads = 1\<rparr>"
proof -
  let ?s = "\<lparr>cache = \<lparr>data = None, lastModified = None, isCalculating = True\<rparr>,
      calls = [AwaitRead 0 1, AwaitStat 0], reads = 1\<rparr>"
  have a: "run [Invoke, StatDone 0 (Inr 1), Invoke] initial = ?s"
    by (simp add: getStats_defs initial_def)
  have "run (wait_rounds n 1 1) ?s = ?s\<lparr>calls := (calls ?s)[1 := AwaitStat (0 + n)]\<rparr>"
    by (rule run_wait_rounds) simp_all
  moreover have "run ([Invoke, StatDone 0 (Inr 1), Invoke] @ wait_rounds n 1 1) initial
      = run (wait_rounds n 1 1) ?s"
    by (simp only: run_append a)
  ultimately show ?thesis
    by simp
qed

theorem no_retry_cap:
  "\<not> (\<exists>cap. \<forall>n. retries (calls (run ([Invoke, StatDone 0 (Inr 1), Invoke] @ wait_rounds n 1 1) initial) ! 1) \<le> cap)"
proof
  assume "\<exists>cap. \<forall>n. retries (calls (run ([Invoke, StatDone 0 (Inr 1), Invoke] @ wait_rounds n 1 1) initial) ! 1) \<le> cap"
  then obtain cap where "\<forall>n. retries (calls (run ([Invoke, StatDone 0 (Inr 1), Invoke] @ wait_rounds n 1 1) initial) ! 1) \<le> cap"
    by blast
  then have "retries (calls (run ([Invoke, StatDone 0 (Inr 1), Invoke] @ wait_rounds (Suc cap) 1 1) initial) ! 1) \<le> cap"
    by blast
  then show False
    by (simp only: storm_state) (simp add: retries_def)
qed

subsection \<open>Failure of a computation\<close>

text \<open>
  C3. When the read, the parsing or the computation of a recomputation fails, \<^verbatim>\<open>getStats\<close>
  clears the flag \<^verbatim>\<open>isCalculating\<close>, rejects with the error (wrapped in
  \<^verbatim>\<open>Failed to calculate stats\<close>) and leaves the cached statistics and their marker as
  they were; a later call that sees the stored marker is served the cached statistics.
\<close>

theorem getStats_read_failure:
  assumes "i < length (calls s)" and "calls s ! i = AwaitRead k m"
  shows "(let s' = step (ReadDone i (Inl msg)) s
          in \<not> isCalculating (cache s')
             \<and> calls s' ! i = Rejected (Error (''Failed to calculate stats: '' @ msg))
             \<and> data (cache s') = data (cache s)
             \<and> lastModified (cache s') = lastModified (cache s)
             \<and> (\<forall>d m'. data (cache s) = Some d \<and> lastModified (cache s) = Some m' \<longrightarrow>
                   calls (run [Invoke, StatDone (length (calls s)) (Inr m')] s') ! length (calls s)
                     = Resolved d))"
  using assms
  by (auto simp add: getStats_defs nth_append)

theorem getStats_read_failure_witness:
  "(let s = \<lparr>cache = \<lparr>data = Some (calculateStats []), lastModified = Some 5, isCalculating = True\<rparr>,
          calls = [AwaitRead 0 6], reads = 2\<rparr>;
        s' = step (ReadDone 0 (Inl ''ENOENT'')) s
    in 0 < length (calls s) \<and> calls s ! 0 = AwaitRead 0 6
       \<and> \<not> isCalculating (cache s')
       \<and> calls s' ! 0 = Rejected (Error ''Failed to calculate stats: ENOENT'')
       \<and> data (cache s') = Some (calculateStats [])
       \<and> lastModified (cache s') = Some 5
       \<and> calls (run [Invoke, StatDone 1 (Inr 5)] s') ! 1 = Resolved (calculateStats []))"
proof -
  let ?s = "\<lparr>cache = \<lparr>data = Some (calculateStats []), lastModified = Some 5, isCalculating = True\<rparr>,
          calls = [AwaitRead 0 6], reads = 2\<rparr>"
  have h: "0 < length (calls ?s)" "calls ?s ! 0 = AwaitRead 0 6"
    by simp_all
  from getStats_read_failure [OF h, of "''ENOENT''"] h
  show ?thesis
    by (simp add: Let_def)
qed

subsection \<open>Concurrent calls\<close>

text \<open>
  In a run where no \<^verbatim>\<open>fs.stat\<close> and no read fails and the marker stays the same, the data
  file is read at most once, whatever the number of calls and their interleaving.
\<close>

lemma ball_update:
  "\<forall>c \<in> set xs. P c \<Longrightarrow> P x \<Longrightarrow> \<forall>c \<in> set (xs[i := x]). P c"
  using set_update_subset_insert [of xs i x] by blast

lemma one_pass_calls_update:
  assumes "one_pass m s" and "reads s = 1" and "\<forall>k m'. c = AwaitRead k m' \<longrightarrow> m' = m"
  shows "one_pass m (s\<lparr>calls := (calls s)[i := c]\<rparr>)"
proof -
  have "\<forall>c \<in> set (calls s). \<forall>k m'. c = AwaitRead k m' \<longrightarrow> m' = m"
    using assms(1) by (simp add: one_pass_def)
  then have "\<forall>c' \<in> set ((calls s)[i := c]). \<forall>k m'. c' = AwaitRead k m' \<longrightarrow> m' = m"
    using assms(3) by (rule ball_update)
  then show ?thesis
    using assms(1,2) by (simp add: one_pass_def)
qed

lemma one_pass_step:
  assumes "one_pass m s" and "undisturbed m e"
  shows "one_pass m (step e s)"
proof (cases e)
  case Invoke
  then show ?thesis using assms by (auto simp add: one_pass_def step_defs)
next
  case (StatDone i r)
  then have r: "r = Inr m" using assms(2) by (simp add: undisturbed_def)
  show ?thesis
  proof (cases "i < length (calls s) \<and> (\<exists>k. calls s ! i = AwaitStat k)")
    case False
    then have "step e s = s"
      using StatDone by (auto simp add: step_defs split: call.splits)
    then show ?thesis using assms by simp
  next
    case True
    then obtain k where k: "i < length (calls s)" "calls s ! i = AwaitStat k" by blast
    have mk: "\<forall>c \<in> set (calls s). \<forall>k m'. c = AwaitRead k m' \<longrightarrow> m' = m"
      using assms(1) by (simp add: one_pass_def)
    show ?thesis
    proof (cases "reads s = 0")
      case True
      then have c: "\<not> isCalculating (cache s)" "data (cache s) = None"
        using assms(1) by (auto simp add: one_pass_def)
      then have st: "step e s = s\<lparr>calls := (calls s)[i := AwaitRead k m],
                                 cache := (cache s)\<lparr>isCalculating := True\<rparr>, reads := 1\<rparr>"
        using StatDone r k True by (simp add: step_defs)
      have "\<forall>c' \<in> set ((calls s)[i := AwaitRead k m]). \<forall>k m'. c' = AwaitRead k m' \<longrightarrow> m' = m"
        using mk by (rule ball_update) simp
      then show ?thesis
        unfolding st by (simp add: one_pass_def)
    next
      case False
      then have one: "reads s = 1"
        and c: "isCalculating (cache s) \<or> (data (cache s) \<noteq> None \<and> lastModified (cache s) = Some m)"
        using assms(1) by (auto simp add: one_pass_def)
      then have "\<exists>c. step e s = s\<lparr>calls := (calls s)[i := c]\<rparr> \<and> (\<forall>k m'. c \<noteq> AwaitRead k m')"
        using StatDone r k by (auto simp add: step_defs split: option.splits)
      then obtain c where st: "step e s = s\<lparr>calls := (calls s)[i := c]\<rparr>"
        and "\<forall>k m'. c = AwaitRead k m' \<longrightarrow> m' = m"
        by blast
      then show ?thesis
        using one_pass_calls_update [OF assms(1) one] by simp
    qed
  qed
next
  case (TimerDone i)
  show ?thesis
  proof (cases "i < length (calls s) \<and> (\<exists>k. calls s ! i = AwaitTimer k)")
    case False
    then have "step e s = s"
      using TimerDone by (auto simp add: step_defs split: call.splits)
    then show ?thesis using assms by simp
  next
    case True
    then obtain k where k: "i < length (calls s)" "calls s ! i = AwaitTimer k" by blast
    then have st: "step e s = s\<lparr>calls := (calls s)[i := AwaitStat (Suc k)]\<rparr>"
      using TimerDone by (simp add: step_defs)
    have "AwaitTimer k \<in> set (calls s)" using k by (metis nth_mem)
    then have "reads s = 1"
      using assms(1) by (auto simp add: one_pass_def)
    then show ?thesis
      unfolding st using one_pass_calls_update [OF assms(1)] by simp
  qed
next
  case (ReadDone i r)
  then obtain its where r: "r = Inr its"
    using assms(2) by (auto simp add: undisturbed_def split: sum.splits)
  show ?thesis
  proof (cases "i < length (calls s) \<and> (\<exists>k m'. calls s ! i = AwaitRead k m')")
    case False
    then have "step e s = s"
      using ReadDone by (auto simp add: step_defs split: call.splits)
    then show ?thesis using assms by simp
  next
    case True
    then obtain k m' where k: "i < length (calls s)" "calls s ! i = AwaitRead k m'" by blast
    then have mem: "AwaitRead k m' \<in> set (calls s)" by (metis nth_mem)
    then have m': "m' = m" and one: "reads s = 1"
      using assms(1) by (auto simp add: one_pass_def)
    have st: "step e s = s\<lparr>calls := (calls s)[i := Resolved (calculateStats its)],
                cache := \<lparr>data = Some (calculateStats its), lastModified = Some m,
                           isCalculating = False\<rparr>\<rparr>"
      using ReadDone r k m' by (simp add: step_defs)
    have "one_pass m (s\<lparr>calls := (calls s)[i := Resolved (calculateStats its)]\<rparr>)"
      using one_pass_calls_update [OF assms(1) one] by simp
    then show ?thesis
      unfolding st using one by (simp add: one_pass_def)
  qed
next
  case FileChanged
  then show ?thesis using assms(2) by (simp add: undisturbed_def)
qed

lemma one_pass_run:
  "list_all (undisturbed m) evs \<Longrightarrow> one_pass m (run evs initial)"
proof (induction evs rule: rev_induct)
  case Nil
  show ?case by (simp add: run_Nil initial_def one_pass_def)
next
  case (snoc e evs)
  then show ?case by (simp add: run_snoc one_pass_step)
qed

lemma single_computation:
  assumes "list_all (undisturbed m) evs"
  shows "reads (run evs initial) \<le> 1"
  using one_pass_run [OF assms] by (auto simp add: one_pass_def)

text \<open>
  C4 (the code at a failing input). Three calls are made while the cache is empty. The
  first starts the computation; \<^verbatim>\<open>fs.stat\<close> of the second fails, and the outer \<^verbatim>\<open>catch\<close>
  of \<^verbatim>\<open>getStats\<close> resets \<^verbatim>\<open>isCalculating\<close> although the computation of the first call is
  still in flight; the third call then starts a second computation instead of waiting.
\<close>

theorem concurrent_computations_after_stat_failure:
  "(let s = run [Invoke, Invoke, Invoke,
                 StatDone 0 (Inr 1), StatDone 1 (Inl ''EMFILE''), StatDone 2 (Inr 1)] initial
    in calls s ! 0 = AwaitRead 0 1 \<and> calls s ! 2 = AwaitRead 0 1 \<and> reads s = 2
       \<and> data (cache s) = None)"
  by (simp add: getStats_defs initial_def)

subsection \<open>The cache entry\<close>

text \<open>What one step can do to the cache entry.\<close>
lemma step_cache_entry:
  "(\<exists>i k m its. e = ReadDone i (Inr its) \<and> i < length (calls s) \<and> calls s ! i = AwaitRead k m
       \<and> data (cache (step e s)) = Some (calculateStats its)
       \<and> lastModified (cache (step e s)) = Some m)
   \<or> (data (cache (step e s)) = data (cache s) \<and> lastModified (cache (step e s)) = lastModified (cache s))
   \<or> (data (cache (step e s)) = None \<and> lastModified (cache (step e s)) = None)"
  by (cases e) (auto simp add: step_defs split: call.splits sum.splits option.splits)

lemma paired_run:
  "(data (cache (run evs initial)) = None) = (lastModified (cache (run evs initial)) = None)"
proof (induction evs rule: rev_induct)
  case Nil
  show ?case by (simp add: run_Nil initial_def)
next
  case (snoc e evs)
  show ?case
    using snoc.IH step_cache_entry [of e "run evs initial"]
    by (auto simp add: run_snoc)
qed

text \<open>A call waits for its read only after its stat has returned the marker it holds.\<close>
lemma step_AwaitRead:
  assumes "i < length (calls (step e s))" and "calls (step e s) ! i = AwaitRead k m"
  shows "(i < length (calls s) \<and> calls s ! i = AwaitRead k m) \<or> e = StatDone i (Inr m)"
  using assms
  by (cases e)
     (auto simp add: step_defs nth_append nth_list_update split: call.splits sum.splits option.splits if_splits)

lemma AwaitRead_origin:
  assumes "i < length (calls (run evs initial))" and "calls (run evs initial) ! i = AwaitRead k m"
  shows "\<exists>evs0 evs1. evs = evs0 @ StatDone i (Inr m) # evs1"
  using assms
proof (induction evs rule: rev_induct)
  case Nil
  then show ?case by (simp add: run_Nil initial_def)
next
  case (snoc e evs)
  from snoc.prems have "(i < length (calls (run evs initial)) \<and> calls (run evs initial) ! i = AwaitRead k m)
      \<or> e = StatDone i (Inr m)"
    unfolding run_snoc by (rule step_AwaitRead)
  then show ?case
  proof
    assume "i < length (calls (run evs initial)) \<and> calls (run evs initial) ! i = AwaitRead k m"
    then obtain evs0 evs1 where "evs = evs0 @ StatDone i (Inr m) # evs1"
      using snoc.IH by blast
    then have "evs @ [e] = evs0 @ StatDone i (Inr m) # (evs1 @ [e])"
      by simp
    then show ?thesis by blast
  next
    assume "e = StatDone i (Inr m)"
    then have "evs @ [e] = evs @ StatDone i (Inr m) # []" by simp
    then show ?thesis by blast
  qed
qed

lemma provenance_run:
  assumes "data (cache (run evs initial)) = Some d"
  shows "\<exists>evs1 evs2 i k m its.
           evs = evs1 @ ReadDone i (Inr its) # evs2
         \<and> i < length (calls (run evs1 initial))
         \<and> calls (run evs1 initial) ! i = AwaitRead k m
         \<and> d = calculateStats its
         \<and> lastModified (cache (run evs initial)) = Some m"
  using assms
proof (induction evs rule: rev_induct)
  case Nil
  then show ?case by (simp add: run_Nil initial_def)
next
  case (snoc e evs)
  let ?s = "run evs initial"
  from snoc.prems have d: "data (cache (step e ?s)) = Some d"
    by (simp add: run_snoc)
  consider
    (stored) i k m its where "e = ReadDone i (Inr its)" "i < length (calls ?s)" "calls ?s ! i = AwaitRead k m"
      "data (cache (step e ?s)) = Some (calculateStats its)" "lastModified (cache (step e ?s)) = Some m"
  | (keep) "data (cache (step e ?s)) = data (cache ?s)" "lastModified (cache (step e ?s)) = lastModified (cache ?s)"
  | (clear) "data (cache (step e ?s)) = None"
    using step_cache_entry [of e ?s] by (elim disjE exE conjE) auto
  then show ?case
  proof cases
    case stored
    have "evs @ [e] = evs @ ReadDone i (Inr its) # []"
      using stored(1) by simp
    moreover have "d = calculateStats its"
      using d stored(4) by simp
    ultimately show ?thesis
      using stored(2,3,5) unfolding run_snoc by blast
  next
    case keep
    then have "data (cache ?s) = Some d" using d by simp
    then obtain evs1 evs2 i k m its where
      *: "evs = evs1 @ ReadDone i (Inr its) # evs2" "i < length (calls (run evs1 initial))"
         "calls (run evs1 initial) ! i = AwaitRead k m" "d = calculateStats its"
         "lastModified (cache ?s) = Some m"
      using snoc.IH by blast
    have "evs @ [e] = evs1 @ ReadDone i (Inr its) # (evs2 @ [e])"
      using *(1) by simp
    moreover have "lastModified (cache (step e ?s)) = Some m"
      using keep(2) *(5) by simp
    ultimately show ?thesis
      using *(2,3,4) unfolding run_snoc by blast
  next
    case clear
    then show ?thesis using d by simp
  qed
qed

text \<open>The flag is set only while some call waits for its read.\<close>
lemma step_flag:
  assumes "isCalculating (cache s) \<longrightarrow> (\<exists>j<length (calls s). \<exists>k m. calls s ! j = AwaitRead k m)"
    and "isCalculating (cache (step e s))"
  shows "\<exists>j<length (calls (step e s)). \<exists>k m. calls (step e s) ! j = AwaitRead k m"
proof (cases e)
  case Invoke
  then show ?thesis using assms
    by (auto simp add: step_defs nth_append intro: less_SucI)
next
  case (StatDone i r)
  show ?thesis
  proof (cases "i < length (calls s) \<and> (\<exists>k. calls s ! i = AwaitStat k)")
    case False
    then have "step e s = s"
      using StatDone by (auto simp add: step_defs split: call.splits)
    then show ?thesis using assms by simp
  next
    case True
    then obtain k where k: "i < length (calls s)" "calls s ! i = AwaitStat k" by blast
    show ?thesis
    proof (cases "\<exists>m. calls (step e s) ! i = AwaitRead k m")
      case True
      moreover have "length (calls (step e s)) = length (calls s)"
        using StatDone k by (auto simp add: step_defs split: sum.splits option.splits)
      ultimately show ?thesis using k(1) by auto
    next
      case False
      then have flag: "isCalculating (cache s)" and cs: "\<exists>c. calls (step e s) = (calls s)[i := c]"
        using StatDone k assms(2) by (auto simp add: step_defs split: sum.splits option.splits if_splits)
      then obtain j k' m' where j: "j < length (calls s)" "calls s ! j = AwaitRead k' m'"
        using assms(1) by blast
      then have "j \<noteq> i" using k(2) by auto
      then show ?thesis using cs j by (auto simp add: nth_list_update)
    qed
  qed
next
  case (TimerDone i)
  show ?thesis
  proof (cases "i < length (calls s) \<and> (\<exists>k. calls s ! i = AwaitTimer k)")
    case False
    then have "step e s = s"
      using TimerDone by (auto simp add: step_defs split: call.splits)
    then show ?thesis using assms by simp
  next
    case True
    then obtain k where k: "i < length (calls s)" "calls s ! i = AwaitTimer k" by blast
    then have st: "step e s = s\<lparr>calls := (calls s)[i := AwaitStat (Suc k)]\<rparr>"
      using TimerDone by (simp add: step_defs)
    then have "isCalculating (cache s)" using assms(2) by simp
    then obtain j k' m' where j: "j < length (calls s)" "calls s ! j = AwaitRead k' m'"
      using assms(1) by blast
    then have "j \<noteq> i" using k(2) by auto
    then show ?thesis using st j by (auto simp add: nth_list_update)
  qed
next
  case (ReadDone i r)
  show ?thesis
  proof (cases "i < length (calls s) \<and> (\<exists>k m. calls s ! i = AwaitRead k m)")
    case False
    then have "step e s = s"
      using ReadDone by (auto simp add: step_defs split: call.splits)
    then show ?thesis using assms by simp
  next
    case True
    then have "\<not> isCalculating (cache (step e s))"
      using ReadDone by (auto simp add: step_defs split: sum.splits)
    then show ?thesis using assms(2) by simp
  qed
next
  case FileChanged
  then show ?thesis using assms by (auto simp add: step_defs)
qed

lemma flag_run:
  "isCalculating (cache (run evs initial))
   \<Longrightarrow> \<exists>j<length (calls (run evs initial)). \<exists>k m. calls (run evs initial) ! j = AwaitRead k m"
proof (induction evs rule: rev_induct)
  case Nil
  then show ?case by (simp add: run_Nil initial_def)
next
  case (snoc e evs)
  show ?case
    unfolding run_snoc
    by (rule step_flag) (use snoc in \<open>auto simp add: run_snoc\<close>)
qed

text \<open>A call that settles and leaves the flag set has hit the cache.\<close>
lemma settle_with_flag:
  assumes "i < length (calls s)" and "\<not> settled (calls s ! i)"
    and "settled (calls (step e s) ! i)" and "isCalculating (cache (step e s))"
  shows "\<exists>k d m. calls s ! i = AwaitStat k \<and> e = StatDone i (Inr m)
           \<and> data (cache s) = Some d \<and> lastModified (cache s) = Some m
           \<and> calls (step e s) ! i = Resolved d \<and> cache (step e s) = cache s"
  using assms
  by (cases e)
     (auto simp add: step_defs settled_def nth_append nth_list_update
           split: call.splits sum.splits option.splits if_splits)

text \<open>
  C5 (as amended). In every state reached from the initial one by calls of \<^verbatim>\<open>getStats\<close>,
  their completions and invalidations by the watcher: the cached statistics and their
  marker are both present or both absent; when present, the statistics were computed from
  a read of some call and the stored marker is the one that call had obtained from
  \<^verbatim>\<open>fs.stat\<close> before starting the read; the flag \<^verbatim>\<open>isCalculating\<close> is set only while some
  call is waiting for its read; and a call after whose settling the flag is set has
  settled by a cache hit, which leaves the cache object untouched. So a call that settles by
  a failure or by completing its own computation leaves the flag cleared.
\<close>

theorem cache_entry_never_half_written:
  "((data (cache (run evs initial)) = None) = (lastModified (cache (run evs initial)) = None))
   \<and> (data (cache (run evs initial)) = Some d \<longrightarrow>
        (\<exists>evs0 evs1 evs2 i k m its.
            evs = evs0 @ StatDone i (Inr m) # evs1 @ ReadDone i (Inr its) # evs2
          \<and> calls (run (evs0 @ StatDone i (Inr m) # evs1) initial) ! i = AwaitRead k m
          \<and> d = calculateStats its
          \<and> lastModified (cache (run evs initial)) = Some m))
   \<and> (isCalculating (cache (run evs initial)) \<longrightarrow>
        (\<exists>j < length (calls (run evs initial)). \<exists>k m. calls (run evs initial) ! j = AwaitRead k m))
   \<and> (i < length (calls (run evs initial)) \<and> \<not> settled (calls (run evs initial) ! i)
        \<and> settled (calls (step e (run evs initial)) ! i)
        \<and> isCalculating (cache (step e (run evs initial))) \<longrightarrow>
        (\<exists>k d m. e = StatDone i (Inr m) \<and> calls (run evs initial) ! i = AwaitStat k
           \<and> data (cache (run evs initial)) = Some d
           \<and> lastModified (cache (run evs initial)) = Some m
           \<and> calls (step e (run evs initial)) ! i = Resolved d
           \<and> cache (step e (run evs initial)) = cache (run evs initial)))"
proof (intro conjI impI)
  show "(data (cache (run evs initial)) = None) = (lastModified (cache (run evs initial)) = None)"
    by (rule paired_run)
next
  assume "data (cache (run evs initial)) = Some d"
  then obtain evs1 evs2 i k m its where
    *: "evs = evs1 @ ReadDone i (Inr its) # evs2" "i < length (calls (run evs1 initial))"
       "calls (run evs1 initial) ! i = AwaitRead k m" "d = calculateStats its"
       "lastModified (cache (run evs initial)) = Some m"
    using provenance_run by blast
  from *(2,3) obtain evs0 evs1' where o: "evs1 = evs0 @ StatDone i (Inr m) # evs1'"
    using AwaitRead_origin by blast
  have "evs = evs0 @ StatDone i (Inr m) # evs1' @ ReadDone i (Inr its) # evs2"
    using *(1) o by simp
  moreover have "calls (run (evs0 @ StatDone i (Inr m) # evs1') initial) ! i = AwaitRead k m"
    using *(3) o by simp
  ultimately show "\<exists>evs0 evs1 evs2 i k m its.
            evs = evs0 @ StatDone i (Inr m) # evs1 @ ReadDone i (Inr its) # evs2
          \<and> calls (run (evs0 @ StatDone i (Inr m) # evs1) initial) ! i = AwaitRead k m
          \<and> d = calculateStats its
          \<and> lastModified (cache (run evs initial)) = Some m"
    using *(4,5) by blast
next
  assume "isCalculating (cache (run evs initial))"
  then show "\<exists>j < length (calls (run evs initial)). \<exists>k m. calls (run evs initial) ! j = AwaitRead k m"
    by (rule flag_run)
next
  assume "i < length (calls (run evs initial)) \<and> \<not> settled (calls (run evs initial) ! i)
        \<and> settled (calls (step e (run evs initial)) ! i)
        \<and> isCalculating (cache (step e (run evs initial)))"
  then show "\<exists>k d m. e = StatDone i (Inr m) \<and> calls (run evs initial) ! i = AwaitStat k
           \<and> data (cache (run evs initial)) = Some d
           \<and> lastModified (cache (run evs initial)) = Some m
           \<and> calls (step e (run evs initial)) ! i = Resolved d
           \<and> cache (step e (run evs initial)) = cache (run evs initial)"
    using settle_with_flag [of i "run evs initial" e] by blast
qed

theorem cache_entry_never_half_written_witness:
  "(let s = run [Invoke, StatDone 0 (Inr 1), ReadDone 0 (Inr []),
                 Invoke, StatDone 1 (Inr 2), Invoke] initial;
        s' = step (StatDone 2 (Inr 1)) s
    in data (cache s) = Some (calculateStats []) \<and> lastModified (cache s) = Some 1
       \<and> isCalculating (cache s) \<and> calls s ! 1 = AwaitRead 0 2
       \<and> 2 < length (calls s) \<and> \<not> settled (calls s ! 2) \<and> settled (calls s' ! 2)
       \<and> isCalculating (cache s')
       \<and> calls s' ! 2 = Resolved (calculateStats []) \<and> cache s' = cache s)"
proof -
  let ?evs = "[Invoke, StatDone 0 (Inr 1), ReadDone 0 (Inr []), Invoke, StatDone 1 (Inr 2), Invoke]"
  let ?s = "\<lparr>cache = \<lparr>data = Some (calculateStats []), lastModified = Some 1, isCalculating = True\<rparr>,
      calls = [Resolved (calculateStats []), AwaitRead 0 2, AwaitStat 0], reads = 2\<rparr>"
  have s: "run ?evs initial = ?s"
    by (simp add: getStats_defs initial_def)
  have h: "data (cache ?s) = Some (calculateStats [])" "isCalculating (cache ?s)"
    "2 < length (calls ?s) \<and> \<not> settled (calls ?s ! 2)
        \<and> settled (calls (step (StatDone 2 (Inr 1)) ?s) ! 2)
        \<and> isCalculating (cache (step (StatDone 2 (Inr 1)) ?s))"
    by (simp_all add: getStats_defs settled_def)
  from cache_entry_never_half_written [of ?evs "calculateStats []" 2 "StatDone 2 (Inr 1)"] h
  show ?thesis
    unfolding s Let_def by (simp add: settled_def)
qed

text \<open>
  The claim C5 as stated fails in its last part: a call served from the cache settles
  while the computation of another call is in flight, and the flag is set after it.
\<close>

theorem cache_hit_while_computing:
  "(let s = run [Invoke, StatDone 0 (Inr 1), ReadDone 0 (Inr []),
                 Invoke, StatDone 1 (Inr 2), Invoke] initial;
        s' = step (StatDone 2 (Inr 1)) s
    in \<not> settled (calls s ! 2) \<and> settled (calls s' ! 2) \<and> isCalculating (cache s'))"
  by (simp add: getStats_defs initial_def settled_def)

section \<open>Doubles and calculateStats\<close>

lemma pow2_pos: "0 < pow2 e"
  by (simp add: pow2_def)

lemma pow2_Suc: "pow2 (e + 1) = 2 * pow2 e"
proof (cases "0 \<le> e")
  case True
  then show ?thesis by (simp add: pow2_def nat_add_distrib)
next
  case False
  then have "nat (- e) = Suc (nat (- (e + 1)))" by simp
  then show ?thesis using False by (simp add: pow2_def)
qed

lemma pow2_diff: "pow2 (a - b) = pow2 a / pow2 b"
proof -
  have add: "pow2 (c + int n) = pow2 c * 2 ^ n" for c n
  proof (induction n)
    case 0
    show ?case by simp
  next
    case (Suc n)
    have "c + int (Suc n) = (c + int n) + 1" by simp
    then have "pow2 (c + int (Suc n)) = pow2 ((c + int n) + 1)" by (simp only:)
    then show ?case using Suc by (simp add: pow2_Suc)
  qed
  have nat: "pow2 (int n) = 2 ^ n" for n
    by (simp add: pow2_def)
  have neg: "pow2 (- int n) = 1 / 2 ^ n" for n
    using add [of "- int n" n] by (simp add: pow2_def field_simps)
  have gen: "pow2 (c + d) = pow2 c * pow2 d" for c d
  proof (cases "0 \<le> d")
    case True
    then show ?thesis using add [of c "nat d"] nat [of "nat d"] by simp
  next
    case False
    then have "pow2 ((c + d) + int (nat (- d))) = pow2 (c + d) * 2 ^ nat (- d)"
      by (rule_tac add)
    moreover have "(c + d) + int (nat (- d)) = c" using False by simp
    ultimately have "pow2 c = pow2 (c + d) * 2 ^ nat (- d)" by simp
    moreover have "pow2 d = 1 / 2 ^ nat (- d)" using False by (simp add: pow2_def)
    ultimately show ?thesis by (simp add: field_simps)
  qed
  have "pow2 a = pow2 (a - b) * pow2 b"
    using gen [of "a - b" b] by simp
  then show ?thesis
    using pow2_pos [of b] by (simp add: field_simps)
qed

lemma bitlen_pow2_bounds:
  assumes "0 < n"
  shows "pow2 (bitlen n - 1) \<le> of_int n" and "of_int n < pow2 (bitlen n)"
proof -
  from bitlen_bounds [OF assms]
  have a: "2 ^ nat (bitlen n - 1) \<le> n" and b: "n < 2 ^ nat (bitlen n)"
    by simp_all
  have pos: "0 < bitlen n"
    using assms bitlen_eq_zero_iff [of n] bitlen_nonneg [of n] by linarith
  have "(of_int ((2::int) ^ nat (bitlen n - 1)) :: rat) \<le> of_int n"
    using a by (simp only: of_int_le_iff)
  then show "pow2 (bitlen n - 1) \<le> of_int n"
    using pos by (simp add: pow2_def)
  have "(of_int n :: rat) < of_int ((2::int) ^ nat (bitlen n))"
    using b by (simp only: of_int_less_iff)
  then show "of_int n < pow2 (bitlen n)"
    using pos by (simp add: pow2_def)
qed

text \<open>The exponent is the one the definition of a double asks for.\<close>

lemma exponent_bounds:
  assumes "x \<noteq> 0"
  shows "pow2 (exponent x) \<le> \<bar>x\<bar> \<and> \<bar>x\<bar> < pow2 (exponent x + 1)"
proof -
  obtain p q where pq: "quotient_of \<bar>x\<bar> = (p, q)"
    by (cases "quotient_of \<bar>x\<bar>")
  then have q: "0 < q" and x: "\<bar>x\<bar> = of_int p / of_int q"
    by (simp_all add: quotient_of_denom_pos quotient_of_div)
  have "0 < \<bar>x\<bar>" using assms by simp
  then have p: "0 < p"
    using x q by (simp add: zero_less_divide_iff)
  let ?d = "bitlen p - bitlen q"
  have lo: "pow2 (?d - 1) < \<bar>x\<bar>"
  proof -
    have "pow2 (?d - 1) = pow2 (bitlen p - 1) / pow2 (bitlen q)"
      using pow2_diff [of "bitlen p - 1" "bitlen q"] by (simp add: algebra_simps)
    also have "\<dots> \<le> of_int p / pow2 (bitlen q)"
      using bitlen_pow2_bounds(1) [OF p] pow2_pos [of "bitlen q"] by (simp add: divide_right_mono)
    also have "\<dots> < of_int p / of_int q"
      using bitlen_pow2_bounds(2) [OF q] p q by (simp add: divide_strict_left_mono)
    finally show ?thesis using x by simp
  qed
  have hi: "\<bar>x\<bar> < pow2 (?d + 1)"
  proof -
    have "of_int p / of_int q < pow2 (bitlen p) / of_int q"
      using bitlen_pow2_bounds(2) [OF p] q by (simp add: divide_strict_right_mono)
    also have "\<dots> \<le> pow2 (bitlen p) / pow2 (bitlen q - 1)"
      using bitlen_pow2_bounds(1) [OF q] q pow2_pos [of "bitlen p"] pow2_pos [of "bitlen q - 1"]
      by (simp add: divide_left_mono)
    also have "\<dots> = pow2 (?d + 1)"
      using pow2_diff [of "bitlen p" "bitlen q - 1"] by (simp add: algebra_simps)
    finally show ?thesis using x by simp
  qed
  show ?thesis
  proof (cases "pow2 ?d \<le> \<bar>x\<bar>")
    case True
    then have "exponent x = ?d"
      by (simp add: exponent_def pq)
    then show ?thesis using True hi by simp
  next
    case False
    then have "exponent x = ?d - 1"
      by (simp add: exponent_def pq)
    then show ?thesis using False lo by simp
  qed
qed


lemma round_even_error: "\<bar>of_int (round_even y) - y\<bar> \<le> 1 / 2"
proof -
  have "of_int \<lfloor>y\<rfloor> \<le> y" and "y < of_int \<lfloor>y\<rfloor> + 1"
    by linarith+
  then show ?thesis
    by (auto simp add: round_even_def Let_def)
qed

text \<open>
  \<open>fl x\<close> is a multiple of the unit in the last place of \<open>x\<close> and is at most half a unit
  away from \<open>x\<close>.
\<close>

lemma fl_nearest:
  assumes "x \<noteq> 0"
  shows "\<exists>k :: int. fl x = of_int k * pow2 (exponent x - 52)
           \<and> \<bar>fl x - x\<bar> \<le> pow2 (exponent x - 52) / 2"
proof -
  let ?u = "pow2 (exponent x - 52)"
  let ?k = "round_even (x / ?u)"
  have u: "0 < ?u" by (rule pow2_pos)
  have f: "fl x = of_int ?k * ?u"
    using assms by (simp add: fl_def Let_def)
  have "\<bar>of_int ?k - x / ?u\<bar> \<le> 1 / 2"
    by (rule round_even_error)
  then have "\<bar>of_int ?k - x / ?u\<bar> * ?u \<le> 1 / 2 * ?u"
    using u by (simp add: mult_right_mono)
  moreover have "\<bar>of_int ?k - x / ?u\<bar> * ?u = \<bar>of_int ?k * ?u - x\<bar>"
  proof -
    have "\<bar>of_int ?k - x / ?u\<bar> * ?u = \<bar>(of_int ?k - x / ?u) * ?u\<bar>"
      using u by (simp add: abs_mult)
    also have "(of_int ?k - x / ?u) * ?u = of_int ?k * ?u - x"
      using u by (simp add: field_simps)
    finally show ?thesis .
  qed
  ultimately have "\<bar>fl x - x\<bar> \<le> ?u / 2"
    using f by simp
  then show ?thesis
    using f by blast
qed

text \<open>
  C6 (the code at a failing input). One record whose price is the double that
  \<^verbatim>\<open>JSON.parse\<close> makes of \<^verbatim>\<open>2.675\<close>, which is a little below 2.675. The sum of the prices
  divided by the count is that double, and rounded half up to 2 decimal places it is 2.67.
  In \<^verbatim>\<open>calculateStats\<close> the product by 100 is rounded to the double 267.5, which
  \<^verbatim>\<open>Math.round\<close> takes to 268: the average returned is (the double of) 2.68. Read on the
  numerals of the file instead, the claim fails at \<^verbatim>\<open>1.005\<close>: the product by 100 is
  rounded to a double below 100.5 and the average returned is 1, not 1.01.
\<close>

theorem averagePrice_rounding:
  "averagePrice (calculateStats [\<lparr>category = Some ''Electronics'', price = Some (fl (2675 / 1000))\<rparr>])
     = fl (268 / 100)
   \<and> round_half_up_2dp (fl (2675 / 1000) / 1) = 267 / 100
   \<and> fl (268 / 100) \<noteq> fl (267 / 100)
   \<and> averagePrice (calculateStats [\<lparr>category = Some ''Electronics'', price = Some (fl (1005 / 1000))\<rparr>])
     = 1
   \<and> round_half_up_2dp (1005 / 1000) = 101 / 100"
  by code_simp

section \<open>The items route\<close>

subsection \<open>Search\<close>

lemma prefix_take: "prefix t s = (length t \<le> length s \<and> take (length t) s = t)"
  by (metis prefix_def append_eq_conv_conj take_is_prefix prefix_length_le)

lemma ex_upto_Suc: "(\<exists>i \<in> {0..Suc n}. P i) = (P 0 \<or> (\<exists>i \<in> {0..n}. P (Suc i)))"
proof
  assume "\<exists>i \<in> {0..Suc n}. P i"
  then obtain i where i: "i \<le> Suc n" "P i" by auto
  show "P 0 \<or> (\<exists>i \<in> {0..n}. P (Suc i))"
  proof (cases i)
    case 0
    then show ?thesis using i by simp
  next
    case (Suc j)
    then show ?thesis using i by auto
  qed
next
  assume "P 0 \<or> (\<exists>i \<in> {0..n}. P (Suc i))"
  then show "\<exists>i \<in> {0..Suc n}. P i" by auto
qed

lemma includes_str_window:
  "includes_str s t = (\<exists>i \<in> {0..length s}. i + length t \<le> length s \<and> take (length t) (drop i s) = t)"
proof (induction s)
  case Nil
  show ?case by auto
next
  case (Cons c s)
  have "includes_str (c # s) t = (prefix t (c # s) \<or> includes_str s t)"
    by simp
  also have "\<dots> = ((length t \<le> length (c # s) \<and> take (length t) (c # s) = t)
      \<or> (\<exists>i \<in> {0..length s}. i + length t \<le> length s \<and> take (length t) (drop i s) = t))"
    by (simp only: prefix_take Cons.IH)
  also have "\<dots> = (\<exists>i \<in> {0..length (c # s)}. i + length t \<le> length (c # s)
      \<and> take (length t) (drop i (c # s)) = t)"
    by (simp add: ex_upto_Suc)
  finally show ?case .
qed

lemma window_nth:
  assumes "i + length t \<le> length s"
  shows "(take (length t) (drop i (map f s)) = map f t) = (\<forall>j < length t. f (s ! (i + j)) = f (t ! j))"
  using assms by (auto simp add: list_eq_iff_nth_eq)

lemma code_lower_char:
  "(of_char (lower_char c) :: nat)
     = (if 65 \<le> (of_char c :: nat) \<and> (of_char c :: nat) \<le> 90 then of_char c + 32 else of_char c)"
  by (simp add: lower_char_def Let_def)

lemma char_eq_code: "(c = d) = ((of_char c :: nat) = of_char d)"
  by (metis of_char_eq_iff)

text \<open>Lower-casing identifies exactly the characters that are equal when case is ignored.\<close>

lemma lower_char_eq: "(lower_char c = lower_char d) = eq_ignoring_case c d"
  unfolding char_eq_code [of "lower_char c"] code_lower_char eq_ignoring_case_def
    capital_letter_def char_eq_code [of c d]
  by auto

lemma includes_lowered:
  "includes_str (toLowerCase s) (toLowerCase t) = ci_substring t s"
proof -
  have "includes_str (toLowerCase s) (toLowerCase t)
      = (\<exists>i \<in> {0..length s}. i + length t \<le> length s
            \<and> take (length t) (drop i (map lower_char s)) = map lower_char t)"
    by (simp add: includes_str_window toLowerCase_def)
  also have "\<dots> = (\<exists>i \<in> {0..length s}. i + length t \<le> length s
            \<and> (\<forall>j < length t. lower_char (s ! (i + j)) = lower_char (t ! j)))"
    using window_nth [of _ t s lower_char] by blast
  also have "\<dots> = ci_substring t s"
    by (simp only: ci_substring_def lower_char_eq)
  finally show ?thesis .
qed


lemma filter_js_error:
  "(\<exists>e. filter_js f xs = Inl e) = (\<exists>x \<in> set xs. \<exists>e. f x = Inl e)"
  by (induction xs) (auto split: sum.splits)

lemma matches_error: "matches term r = Inl e \<Longrightarrow> e = TypeError"
  by (auto simp add: matches_def lowered_def split: jsval.splits if_splits)

lemma filter_js_matches_error:
  "filter_js (matches term) xs = Inl e \<Longrightarrow> e = TypeError"
  by (induction xs arbitrary: e) (auto split: sum.splits dest: matches_error)


lemma matches_fails:
  "(matches (toLowerCase t) r = Inl TypeError)
   = (\<not> is_string (item_name r)
      \<or> (\<not> ci_substring t (str_of (item_name r)) \<and> \<not> is_string (item_category r)))"
  by (auto simp add: matches_def lowered_def is_string_def str_of_def includes_lowered
      split: jsval.splits)





lemmas string_eval =
  toLowerCase_def lower_char_def char_of_def bit_Suc_0_iff is_string_def str_of_def kept_def
  includes_lowered [symmetric]



text \<open>
  C10 (as amended). With a non-empty search term, on strings of ASCII characters, the
  handler fails with a \<^verbatim>\<open>TypeError\<close> exactly when some record has a name that is not a
  string, or has a name that does not contain the term and a category that is not a string.
  The category of a record whose name contains the term is not looked at.
\<close>

theorem search_type_error:
  assumes "t \<noteq> []" and "ascii t" and "ascii_items dat"
  shows "(listItems limit (Some t) page_param (Inr dat) = Inl TypeError)
       = (\<exists>r \<in> set dat. \<not> is_string (item_name r)
            \<or> (\<not> ci_substring t (str_of (item_name r)) \<and> \<not> is_string (item_category r)))"
proof -
  have "(listItems limit (Some t) page_param (Inr dat) = Inl TypeError)
      = (filter_js (matches (toLowerCase t)) dat = Inl TypeError)"
    using assms(1)
    by (auto simp add: listItems_def readData_def search_def Let_def split: sum.splits)
  also have "\<dots> = (\<exists>e. filter_js (matches (toLowerCase t)) dat = Inl e)"
    using filter_js_matches_error by blast
  also have "\<dots> = (\<exists>r \<in> set dat. \<exists>e. matches (toLowerCase t) r = Inl e)"
    by (rule filter_js_error)
  also have "\<dots> = (\<exists>r \<in> set dat. matches (toLowerCase t) r = Inl TypeError)"
    using matches_error by blast
  finally show ?thesis
    by (simp add: matches_fails)
qed

theorem search_type_error_witness:
  "''chair'' \<noteq> [] \<and> ascii ''chair''
   \<and> ascii_items [\<lparr>item_id = JNum 1, item_name = JStr ''Test Laptop'', item_category = JNull\<rparr>]
   \<and> listItems None (Some ''chair'') None
        (Inr [\<lparr>item_id = JNum 1, item_name = JStr ''Test Laptop'', item_category = JNull\<rparr>])
      = Inl TypeError"
proof -
  have h1: "''chair'' \<noteq> []"
    by simp
  have h2: "ascii ''chair''"
    by (simp add: ascii_def)
  have h3: "ascii_items [\<lparr>item_id = JNum 1, item_name = JStr ''Test Laptop'', item_category = JNull\<rparr>]"
    by (simp add: ascii_items_def ascii_value_def ascii_def)
  have "\<not> ci_substring ''chair'' ''Test Laptop''"
    by (simp add: string_eval)
  then show ?thesis
    using search_type_error [OF h1 h2 h3, of None None] h1 h2 h3
    by (simp add: is_string_def str_of_def)
qed

text \<open>
  The claim C10 as stated fails: the category of this record is \<^verbatim>\<open>null\<close>, its name
  contains the term, and the search returns the record instead of failing.
\<close>

theorem search_short_circuit:
  "listItems None (Some ''lap'') None
     (Inr [\<lparr>item_id = JNum 1, item_name = JStr ''Test Laptop'', item_category = JNull\<rparr>])
   = Inr \<lparr>items = [\<lparr>item_id = JNum 1, item_name = JStr ''Test Laptop'', item_category = JNull\<rparr>],
          pagination = \<lparr>page = Some 1, pageSize = 10, totalItems = 1, totalPages = 1,
                         hasNextPage = False, hasPrevPage = False\<rparr>\<rparr>
   \<and> \<not> is_string (item_category
            \<lparr>item_id = JNum 1, item_name = JStr ''Test Laptop'', item_category = JNull\<rparr>)"
  by (simp add: listItems_def readData_def search_def matches_def lowered_def toLowerCase_def
        lower_char_def char_of_def bit_Suc_0_iff parseInt_param_def slice_def slice_index_def is_string_def
        ceiling_divide_eq_div [of 1 10, simplified])

subsection \<open>Pagination\<close>

lemma filter_upt_interval:
  "filter (\<lambda>i. A \<le> i \<and> i < B) [0..<n] = [A..<min B n]"
proof (induction n)
  case 0
  show ?case by simp
next
  case (Suc n)
  show ?case
  proof (cases "n < B")
    case True
    then have m: "min B (Suc n) = Suc n" "min B n = n"
      by simp_all
    show ?thesis
      using Suc True unfolding m by (cases "A \<le> n") simp_all
  next
    case False
    then have m: "min B (Suc n) = B" "min B n = B"
      by simp_all
    show ?thesis
      using Suc False unfolding m by simp
  qed
qed

lemma map_nth_upt:
  assumes "B \<le> length xs"
  shows "map (nth xs) [A..<B] = take (B - A) (drop A xs)"
  using assms by (auto simp add: list_eq_iff_nth_eq)

lemma slice_nonneg:
  assumes "0 \<le> a" and "0 \<le> b"
  shows "slice xs (Some a) (Some b) = clipped_slice xs a b"
proof -
  let ?n = "length xs"
  have f: "filter (\<lambda>i. a \<le> int i \<and> int i < b) [0..<?n]
         = filter (\<lambda>i. nat a \<le> i \<and> i < nat b) [0..<?n]"
    using assms by (intro filter_cong) auto
  have "clipped_slice xs a b = map (nth xs) [nat a..<min (nat b) ?n]"
    by (simp add: clipped_slice_def f filter_upt_interval)
  also have "\<dots> = take (min (nat b) ?n - nat a) (drop (nat a) xs)"
    by (rule map_nth_upt) simp
  also have "\<dots> = take (min (nat b) ?n - min (nat a) ?n) (drop (min (nat a) ?n) xs)"
    by (cases "nat a \<le> ?n") (simp_all add: min_def)
  finally show ?thesis
    using assms by (simp add: slice_def slice_index_def Let_def)
qed

lemma slice_to_zero:
  "slice xs (Some a) (Some 0) = clipped_slice xs a 0"
proof -
  have "filter (\<lambda>i. a \<le> int i \<and> int i < 0) [0..<length xs] = []"
    by (simp add: filter_empty_conv)
  then show ?thesis
    by (simp add: slice_def slice_index_def clipped_slice_def Let_def)
qed

lemma page_slice:
  assumes "0 \<le> p" and "0 < ps"
  shows "slice xs (Some ((p - 1) * ps)) (Some ((p - 1) * ps + ps))
       = clipped_slice xs ((p - 1) * ps) ((p - 1) * ps + ps)"
proof (cases "p = 0")
  case True
  then show ?thesis using slice_to_zero [of xs "- ps"] by simp
next
  case False
  then have "0 \<le> (p - 1) * ps" "0 \<le> (p - 1) * ps + ps"
    using assms by simp_all
  then show ?thesis by (rule slice_nonneg)
qed

lemma clipped_slice_out_of_range:
  assumes "int (length xs) \<le> a"
  shows "clipped_slice xs a b = []"
proof -
  have "filter (\<lambda>i. a \<le> int i \<and> int i < b) [0..<length xs] = []"
    using assms by (auto simp add: filter_empty_conv)
  then show ?thesis by (simp add: clipped_slice_def)
qed

lemma slice_NaN: "slice xs None None = []"
  by (simp add: slice_def slice_index_def Let_def)

lemmas parse_eval =
  parseInt_def parseInt_param_def is_space_def is_digit_def digit_value_def digits_value_def

lemma ceil_quotient: "\<lceil>(of_nat a :: rat) / of_int b\<rceil> = - ((- int a) div b)"
  using ceiling_divide_eq_div [of "int a" b, where ?'a = rat] by simp

text \<open>
  C7 (as amended). Take a request whose parameters are strings of ASCII characters, on
  records whose string names and categories are so too, and in which the integers read from
  \<^verbatim>\<open>limit\<close> and \<^verbatim>\<open>page\<close> are at most \<open>2 ^ 53\<close> in magnitude. When the search succeeds with
  some results, the handler answers with: \<open>pageSize\<close>, the integer \<^verbatim>\<open>parseInt\<close> reads from
  \<^verbatim>\<open>limit\<close>, or 10 when \<^verbatim>\<open>limit\<close> is absent, has no leading integer or gives 0; \<open>page\<close>, 1 when
  the parameter is absent and otherwise what \<^verbatim>\<open>parseInt\<close> reads from it; \<open>totalItems\<close>, the
  number of results; \<open>totalPages\<close>, the ceiling of \<open>totalItems / pageSize\<close>. When \<open>page\<close> is
  not a number the list of items is empty and both flags are false. Otherwise \<open>hasNextPage\<close>
  is \<open>page < totalPages\<close> and \<open>hasPrevPage\<close> is \<open>page > 1\<close>, and, provided \<open>page\<close> is not
  negative and \<open>pageSize\<close> is positive, the items are the results with index from
  \<open>(page - 1) * pageSize\<close> up to but excluding \<open>(page - 1) * pageSize + pageSize\<close>, clipped
  to the results: none when the page is out of range.
\<close>

theorem listItems_pagination:
  assumes "search q dat = Inr results"
    and "ascii_param limit" and "ascii_param page_param" and "ascii_param q"
    and "ascii_items dat"
    and "safe_integer (parseInt_param limit)"
    and "safe_integer (case page_param of None \<Rightarrow> Some 1 | Some s \<Rightarrow> parseInt s)"
  shows "\<exists>resp. listItems limit q page_param (Inr dat) = Inr resp
     \<and> pageSize (pagination resp)
         = (case parseInt_param limit of None \<Rightarrow> 10 | Some n \<Rightarrow> if n = 0 then 10 else n)
     \<and> page (pagination resp) = (case page_param of None \<Rightarrow> Some 1 | Some s \<Rightarrow> parseInt s)
     \<and> totalItems (pagination resp) = length results
     \<and> totalPages (pagination resp)
         = \<lceil>(of_nat (length results) :: rat) / of_int (pageSize (pagination resp))\<rceil>
     \<and> (case page (pagination resp) of
           None \<Rightarrow> items resp = [] \<and> \<not> hasNextPage (pagination resp)
                    \<and> \<not> hasPrevPage (pagination resp)
         | Some p \<Rightarrow>
             hasNextPage (pagination resp) = (p < totalPages (pagination resp))
           \<and> hasPrevPage (pagination resp) = (p > 1)
           \<and> (0 \<le> p \<and> 0 < pageSize (pagination resp) \<longrightarrow>
                items resp = clipped_slice results ((p - 1) * pageSize (pagination resp))
                               ((p - 1) * pageSize (pagination resp) + pageSize (pagination resp))
              \<and> (int (length results) \<le> (p - 1) * pageSize (pagination resp)
                   \<longrightarrow> items resp = [])))"
  using assms(1)
  by (auto simp add: listItems_def readData_def Let_def slice_NaN page_slice
        clipped_slice_out_of_range split: option.splits)

theorem listItems_pagination_witness:
  "search None mockItems = Inr mockItems
   \<and> ascii_param (Some ''2'') \<and> ascii_param (Some ''3'') \<and> ascii_param None
   \<and> ascii_items mockItems
   \<and> safe_integer (parseInt_param (Some ''2'')) \<and> safe_integer (parseInt ''3'')
   \<and> listItems (Some ''2'') None (Some ''3'') (Inr mockItems)
     = Inr \<lparr>items = [],
            pagination = \<lparr>page = Some 3, pageSize = 2, totalItems = 3, totalPages = 2,
                           hasNextPage = False, hasPrevPage = True\<rparr>\<rparr>
   \<and> (0::int) \<le> 3 \<and> (0::int) < 2 \<and> int (length mockItems) \<le> (3 - 1) * 2"
proof -
  have h: "search None mockItems = Inr mockItems"
    by (simp add: search_def)
  have p: "parseInt_param (Some ''2'') = Some 2" "parseInt ''3'' = Some 3"
    by (simp_all add: parse_eval)
  have a: "ascii_param (Some ''2'')" "ascii_param (Some ''3'')" "ascii_param None"
    by (simp_all add: ascii_param_def ascii_def)
  have ai: "ascii_items mockItems"
    by (simp add: ascii_items_def ascii_value_def ascii_def mockItems_def)
  have sf: "safe_integer (parseInt_param (Some ''2''))"
    "safe_integer (case Some ''3'' of None \<Rightarrow> Some 1 | Some s \<Rightarrow> parseInt s)"
    by (simp_all add: p safe_integer_def)
  have n: "length mockItems = 3"
    by (simp add: mockItems_def)
  have c: "\<lceil>(3 :: rat) / 2\<rceil> = 2"
    using ceil_quotient [of 3 2] by simp
  from listItems_pagination [OF h a(1) a(2) a(3) ai sf]
  obtain resp where r: "listItems (Some ''2'') None (Some ''3'') (Inr mockItems) = Inr resp"
    and f: "pageSize (pagination resp) = 2" "page (pagination resp) = Some 3"
      "totalItems (pagination resp) = 3" "totalPages (pagination resp) = 2"
      "hasNextPage (pagination resp) = False" "hasPrevPage (pagination resp) = True"
      "items resp = []"
    using p n c by (auto simp add: n)
  have "resp = \<lparr>items = [],
            pagination = \<lparr>page = Some 3, pageSize = 2, totalItems = 3, totalPages = 2,
                           hasNextPage = False, hasPrevPage = True\<rparr>\<rparr>"
    using f by (cases resp, cases "pagination resp") simp
  then show ?thesis
    using h r n a ai sf by (simp add: p)
qed

text \<open>
  The claim C7 as stated fails for a negative page: \<^verbatim>\<open>slice\<close> counts negative indices
  from the end of the array, so page \<open>-1\<close> with \<^verbatim>\<open>limit=1\<close> returns the second of three
  records, where the interval from \<open>-2\<close> to \<open>-1\<close> clipped to the array is empty.
\<close>

theorem negative_page_counts_from_end:
  "listItems (Some ''1'') None (Some ''-1'') (Inr mockItems)
     = Inr \<lparr>items = [mockItems ! 1],
            pagination = \<lparr>page = Some (- 1), pageSize = 1, totalItems = 3, totalPages = 3,
                           hasNextPage = True, hasPrevPage = False\<rparr>\<rparr>
   \<and> clipped_slice mockItems ((- 1 - 1) * 1) ((- 1 - 1) * 1 + 1) = []"
  by (simp add: listItems_def readData_def search_def parse_eval ceil_quotient
        slice_def slice_index_def clipped_slice_def mockItems_def Let_def)

subsection \<open>Lookup by identifier\<close>

lemma decimal_digit_range:
  assumes "is_digit 10 c"
  shows "48 \<le> (of_char c :: nat) \<and> (of_char c :: nat) \<le> 57"
  using assms
  by (auto simp add: is_digit_def digit_value_def Let_def split: if_splits)

lemma decimal_digit_not_space: "is_digit 10 c \<Longrightarrow> \<not> is_space c"
  by (drule decimal_digit_range) (auto simp add: is_space_def)

lemma decimal_digit_hex: "is_digit 10 c \<Longrightarrow> is_digit 16 c"
  by (auto simp add: is_digit_def split: option.splits)

lemma decimal_digit_not_sign:
  assumes "is_digit 10 c"
  shows "c \<noteq> CHR ''-''" and "c \<noteq> CHR ''+''" and "c \<noteq> CHR ''x''" and "c \<noteq> CHR ''X''"
  using decimal_digit_range [OF assms] by auto

lemma parseInt_decimal:
  assumes "denotes_exactly s n"
  shows "parseInt s = Some n"
proof -
  from assms obtain c cs where s: "s = c # cs" and all: "list_all (is_digit 10) (c # cs)"
    and n: "int (digits_value 10 s) = n"
    by (cases s) (auto simp add: denotes_exactly_def)
  have c: "is_digit 10 c" using all by simp
  have s1: "dropWhile is_space s = s"
    using s decimal_digit_not_space [OF c] by simp
  have sign: "take 1 s \<noteq> ''-''" "take 1 s \<noteq> ''+''"
    using s decimal_digit_not_sign [OF c] by simp_all
  have hex: "take 2 s \<noteq> ''0x''" "take 2 s \<noteq> ''0X''"
  proof -
    show "take 2 s \<noteq> ''0x''"
    proof (cases cs)
      case Nil
      then show ?thesis using s by simp
    next
      case (Cons d ds)
      then have "is_digit 10 d" using all by simp
      then show ?thesis using s Cons decimal_digit_not_sign(3) by (auto simp add: numeral_2_eq_2)
    qed
    show "take 2 s \<noteq> ''0X''"
    proof (cases cs)
      case Nil
      then show ?thesis using s by simp
    next
      case (Cons d ds)
      then have "is_digit 10 d" using all by simp
      then show ?thesis using s Cons decimal_digit_not_sign(4) by (auto simp add: numeral_2_eq_2)
    qed
  qed
  have z: "takeWhile (is_digit 10) s = s"
    using all s by (simp add: takeWhile_eq_all_conv list_all_iff)
  have ne: "s \<noteq> []"
    using s by simp
  show ?thesis
    unfolding parseInt_def Let_def s1
    using sign hex n ne by (simp add: z)
qed

lemma find_first:
  assumes "find P xs = Some x"
  shows "\<exists>pre post. xs = pre @ x # post \<and> P x \<and> (\<forall>y \<in> set pre. \<not> P y)"
  using assms
proof (induction xs)
  case Nil
  then show ?case by simp
next
  case (Cons a xs)
  show ?case
  proof (cases "P a")
    case True
    then have "a = x" using Cons.prems by simp
    then have "a # xs = [] @ x # xs \<and> P x \<and> (\<forall>y \<in> set []. \<not> P y)"
      using True by simp
    then show ?thesis by blast
  next
    case False
    then have "find P xs = Some x" using Cons.prems by simp
    then obtain pre post where "xs = pre @ x # post" "P x" "\<forall>y \<in> set pre. \<not> P y"
      using Cons.IH by blast
    then have "a # xs = (a # pre) @ x # post \<and> P x \<and> (\<forall>y \<in> set (a # pre). \<not> P y)"
      using False by simp
    then show ?thesis by blast
  qed
qed

lemma strict_equal_iff:
  "strict_equal v p = (\<exists>n. p = Some n \<and> v = JNum (of_int n))"
  by (auto simp add: strict_equal_def split: option.splits jsval.splits)

text \<open>
  C9 (as amended). For an identifier of ASCII characters from which \<^verbatim>\<open>parseInt\<close> reads
  nothing or an integer of magnitude at most \<open>2 ^ 53\<close>: \<^verbatim>\<open>getItem\<close> returns the first record
  whose \<^verbatim>\<open>id\<close> is the number that \<^verbatim>\<open>parseInt\<close> reads from the identifier, compared with
  \<^verbatim>\<open>===\<close>, whenever there is such a record; it fails with the 404 error when no record has
  that \<^verbatim>\<open>id\<close>, and in particular when \<^verbatim>\<open>parseInt\<close> reads no number from the identifier. An
  identifier that is a decimal numeral is read as its value.
\<close>

theorem getItem_by_parsed_id:
  assumes "ascii s" and "safe_integer (parseInt s)"
  shows "(getItem s (Inr dat) = Inr r \<longrightarrow>
      (\<exists>n pre post. parseInt s = Some n \<and> item_id r = JNum (of_int n) \<and> dat = pre @ r # post
          \<and> (\<forall>x \<in> set pre. item_id x \<noteq> JNum (of_int n))))
   \<and> ((\<exists>x \<in> set dat. \<exists>n. parseInt s = Some n \<and> item_id x = JNum (of_int n))
        \<longrightarrow> (\<exists>r'. getItem s (Inr dat) = Inr r'))
   \<and> ((\<forall>x \<in> set dat. \<forall>n. parseInt s = Some n \<longrightarrow> item_id x \<noteq> JNum (of_int n))
        \<longrightarrow> getItem s (Inr dat) = Inl NotFound)
   \<and> (parseInt s = None \<longrightarrow> getItem s (Inr dat) = Inl NotFound)
   \<and> (denotes_exactly s k \<longrightarrow> parseInt s = Some k)"
proof (intro conjI impI)
  assume "getItem s (Inr dat) = Inr r"
  then have "find (\<lambda>i. strict_equal (item_id i) (parseInt s)) dat = Some r"
    by (simp add: getItem_def readData_def split: option.splits)
  from find_first [OF this]
  obtain pre post where *: "dat = pre @ r # post" "strict_equal (item_id r) (parseInt s)"
      "\<forall>y \<in> set pre. \<not> strict_equal (item_id y) (parseInt s)"
    by auto
  from *(2) obtain n where n: "parseInt s = Some n" "item_id r = JNum (of_int n)"
    unfolding strict_equal_iff by blast
  have "\<forall>x \<in> set pre. item_id x \<noteq> JNum (of_int n)"
    using *(3) n(1) unfolding strict_equal_iff by simp
  then show "\<exists>n pre post. parseInt s = Some n \<and> item_id r = JNum (of_int n) \<and> dat = pre @ r # post
          \<and> (\<forall>x \<in> set pre. item_id x \<noteq> JNum (of_int n))"
    using n *(1) by blast
next
  assume "\<exists>x \<in> set dat. \<exists>n. parseInt s = Some n \<and> item_id x = JNum (of_int n)"
  then have "\<exists>x \<in> set dat. strict_equal (item_id x) (parseInt s)"
    unfolding strict_equal_iff by blast
  then have "find (\<lambda>i. strict_equal (item_id i) (parseInt s)) dat \<noteq> None"
    unfolding find_None_iff by blast
  then obtain r' where "find (\<lambda>i. strict_equal (item_id i) (parseInt s)) dat = Some r'"
    by blast
  then have "getItem s (Inr dat) = Inr r'"
    by (simp add: getItem_def readData_def)
  then show "\<exists>r'. getItem s (Inr dat) = Inr r'" ..
next
  assume "\<forall>x \<in> set dat. \<forall>n. parseInt s = Some n \<longrightarrow> item_id x \<noteq> JNum (of_int n)"
  then have "\<forall>x \<in> set dat. \<not> strict_equal (item_id x) (parseInt s)"
    unfolding strict_equal_iff by blast
  then have "find (\<lambda>i. strict_equal (item_id i) (parseInt s)) dat = None"
    by (simp add: find_None_iff)
  then show "getItem s (Inr dat) = Inl NotFound"
    by (simp add: getItem_def readData_def)
next
  assume "parseInt s = None"
  then have "find (\<lambda>i. strict_equal (item_id i) (parseInt s)) dat = None"
    by (simp add: find_None_iff strict_equal_def)
  then show "getItem s (Inr dat) = Inl NotFound"
    by (simp add: getItem_def readData_def)
next
  assume "denotes_exactly s k"
  then show "parseInt s = Some k" by (rule parseInt_decimal)
qed

theorem getItem_by_parsed_id_witness:
  "ascii ''2'' \<and> safe_integer (parseInt ''2'')
   \<and> getItem ''2'' (Inr mockItems) = Inr (mockItems ! 1)
   \<and> parseInt ''2'' = Some 2 \<and> item_id (mockItems ! 1) = JNum (of_int 2)
   \<and> ascii ''999'' \<and> safe_integer (parseInt ''999'')
   \<and> parseInt ''999'' = Some 999
   \<and> list_all (\<lambda>x. item_id x \<noteq> JNum (of_int 999)) mockItems
   \<and> getItem ''999'' (Inr mockItems) = Inl NotFound
   \<and> ascii ''abc'' \<and> safe_integer (parseInt ''abc'')
   \<and> parseInt ''abc'' = None
   \<and> getItem ''abc'' (Inr mockItems) = Inl NotFound
   \<and> denotes_exactly ''2'' 2"
proof -
  have as: "ascii ''2''" "ascii ''999''" "ascii ''abc''"
    by (simp_all add: ascii_def)
  have p2: "parseInt ''2'' = Some 2"
    by (simp add: parse_eval)
  have p: "parseInt ''999'' = Some 999"
    by (simp add: parse_eval)
  have c: "parseInt ''abc'' = None"
    by (simp add: parse_eval)
  have sf: "safe_integer (parseInt ''2'')" "safe_integer (parseInt ''999'')"
    "safe_integer (parseInt ''abc'')"
    by (simp_all add: p2 p c safe_integer_def)
  have m: "\<exists>x \<in> set mockItems. \<exists>n. parseInt ''2'' = Some n \<and> item_id x = JNum (of_int n)"
    by (simp add: p2 mockItems_def)
  have l: "list_all (\<lambda>x. item_id x \<noteq> JNum (of_int 999)) mockItems"
    by (simp add: mockItems_def)
  have b: "\<forall>x \<in> set mockItems. \<forall>n. parseInt ''999'' = Some n \<longrightarrow> item_id x \<noteq> JNum (of_int n)"
    using l by (simp add: p list_all_iff)
  have d: "denotes_exactly ''2'' 2"
    by (simp add: denotes_exactly_def is_digit_def digit_value_def digits_value_def)
  from getItem_by_parsed_id [OF as(1) sf(1), of mockItems _ 2] m
  obtain r' where g: "getItem ''2'' (Inr mockItems) = Inr r'"
    by blast
  with getItem_by_parsed_id [OF as(1) sf(1), of mockItems r' 2]
  obtain pre post where pp: "mockItems = pre @ r' # post"
    "item_id r' = JNum (of_int 2)" "\<forall>x \<in> set pre. item_id x \<noteq> JNum (of_int 2)"
    using p2 by auto
  have a: "getItem ''2'' (Inr mockItems) = Inr (mockItems ! 1)"
    by (simp add: getItem_def readData_def strict_equal_def p2 mockItems_def)
  from getItem_by_parsed_id [OF as(2) sf(2), of mockItems]
       getItem_by_parsed_id [OF as(3) sf(3), of mockItems]
       a b c d p p2 l as sf
  show ?thesis
    by (auto simp add: mockItems_def)
qed

text \<open>
  The claim C9 as stated fails: \<^verbatim>\<open>parseInt\<close> reads the leading digits of an identifier and
  ignores the rest, so the identifiers \<^verbatim>\<open>1abc\<close> and \<^verbatim>\<open>1.5\<close>, which do not denote the
  number 1, both return the record whose \<^verbatim>\<open>id\<close> is 1.
\<close>

theorem getItem_prefix_identifier:
  "getItem ''1abc'' (Inr mockItems) = Inr (mockItems ! 0)
   \<and> getItem ''1.5'' (Inr mockItems) = Inr (mockItems ! 0)
   \<and> item_id (mockItems ! 0) = JNum 1
   \<and> \<not> denotes_exactly ''1abc'' 1 \<and> \<not> denotes_exactly ''1.5'' 1"
  by (simp add: getItem_def readData_def strict_equal_def parse_eval mockItems_def
        denotes_exactly_def)

end
